theory Spec2Isabelle
  imports Complex_Main "HOL-Library.Char_ord" "HOL-Library.List_Lexorder" "HOL-Library.AList"
begin

section \<open>Strings as Python handles them\<close>

text \<open>
  Strings are lists of characters; a character stands for a code point below 256.
  \<open>str.strip()\<close> removes the characters for which \<open>str.isspace()\<close> holds: in that
  range these are the code points 9-13, 28-32, 133 and 160.
\<close>

definition is_space :: "char \<Rightarrow> bool" where
  "is_space c = ((of_char c :: nat) \<in> {9, 10, 11, 12, 13, 28, 29, 30, 31, 32, 133, 160})"

definition strip :: "string \<Rightarrow> string" where
  "strip s = rev (dropWhile is_space (rev (dropWhile is_space s)))"

text \<open>\<open>s.split(c, 1)\<close> for a string that contains \<open>c\<close>: the text before the first
  occurrence and the text after it.\<close>

definition split_once :: "char \<Rightarrow> string \<Rightarrow> string \<times> string" where
  "split_once c s = (takeWhile (\<lambda>x. x \<noteq> c) s, tl (dropWhile (\<lambda>x. x \<noteq> c) s))"

definition startswith_hash :: "string \<Rightarrow> bool" where
  "startswith_hash s = (case s of [] \<Rightarrow> False | c # _ \<Rightarrow> c = CHR ''#'')"

text \<open>\<open>str.lower()\<close> on code points below 256: the ASCII capitals and the Latin-1
  capitals 192-222 (without the multiplication sign 215) move up by 32.\<close>

definition lower_char :: "char \<Rightarrow> char" where
  "lower_char c =
     (let n = (of_char c :: nat)
      in if (65 \<le> n \<and> n \<le> 90) \<or> (192 \<le> n \<and> n \<le> 222 \<and> n \<noteq> 215)
         then char_of (n + 32) else c)"

definition lower :: "string \<Rightarrow> string" where
  "lower s = map lower_char s"

section \<open>check\_links.py\<close>

text \<open>What the functions print, as values.\<close>

datatype diag =
    LinksFileNotFound string
  | SkippingInvalidLine string
  | InvalidEndpoint string
  | MissingDevices "string list"
  | NoMissingDevices
  | MissingInterfaces "string list"
  | NoMissingInterfaces

text \<open>
  \<open>read_links\<close>: the body of the loop over the lines of the file, with the list
  \<open>links\<close> and the printed diagnostics as the state.
\<close>

definition read_line :: "string \<Rightarrow> (string \<times> string) list \<times> diag list
    \<Rightarrow> (string \<times> string) list \<times> diag list" where
  "read_line raw st =
     (let line = strip raw
      in if line = [] \<or> startswith_hash line then st
         else if CHR ''-'' \<notin> set line
           then (fst st, snd st @ [SkippingInvalidLine line])
         else (let (left, right) = split_once CHR ''-'' line
               in (fst st @ [(strip left, strip right)], snd st)))"

fun read_lines :: "string list \<Rightarrow> (string \<times> string) list \<times> diag list
    \<Rightarrow> (string \<times> string) list \<times> diag list" where
  "read_lines [] st = st"
| "read_lines (raw # rest) st = read_lines rest (read_line raw st)"

text \<open>
  The file system is a map from paths to regular files; \<open>os.path.isfile\<close> is
  definedness. \<open>open(links_file, 'r')\<close> decodes the bytes of the file with the encoding
  of the locale, and nothing in \<open>read_links\<close> catches an exception. So a file is one of
  three things to the function: text, given by its lines; bytes that do not decode,
  where the loop is handed some lines and then \<open>UnicodeDecodeError\<close> is raised; or a
  file that cannot be opened, where \<open>open\<close> raises \<open>PermissionError\<close>. What was printed
  before an exception stays printed.
\<close>

datatype io_error = UnicodeDecodeError | PermissionError

datatype file_content =
    Text "string list"
  | Undecodable "string list"
  | Unreadable

definition read_links :: "(string \<rightharpoonup> file_content) \<Rightarrow> string
    \<Rightarrow> (io_error \<times> diag list) + ((string \<times> string) list \<times> diag list)" where
  "read_links fs links_file =
     (case fs links_file of
        None \<Rightarrow> Inr ([], [LinksFileNotFound links_file])
      | Some Unreadable \<Rightarrow> Inl (PermissionError, [])
      | Some (Undecodable file_lines) \<Rightarrow>
          Inl (UnicodeDecodeError, snd (read_lines file_lines ([], [])))
      | Some (Text file_lines) \<Rightarrow> Inr (read_lines file_lines ([], [])))"

text \<open>
  \<open>check_links_vs_configs\<close>. The parsed configurations come from the configuration
  parser: a dictionary from device names to the names of the device's interfaces
  (the keys of its \<open>interfaces\<close> entry, empty when the entry is absent).
\<close>

record check_state =
  missing_devices :: "string list"
  missing_interfaces :: "string list"
  printed :: "diag list"

definition check_endpoint :: "(string \<rightharpoonup> string list) \<Rightarrow> string \<Rightarrow> check_state \<Rightarrow> check_state" where
  "check_endpoint parsed_configs ep st =
     (if CHR '':'' \<notin> set ep then st\<lparr>printed := printed st @ [InvalidEndpoint ep]\<rparr>
      else (let (dev0, iface0) = split_once CHR '':'' ep;
                dev = strip dev0;
                iface = lower (strip iface0)
            in case parsed_configs dev of
                 None \<Rightarrow> st\<lparr>missing_devices := List.insert dev (missing_devices st)\<rparr>
               | Some interfaces \<Rightarrow>
                   if iface \<notin> set (map lower interfaces)
                   then st\<lparr>missing_interfaces := missing_interfaces st @ [dev @ '':'' @ iface]\<rparr>
                   else st))"

fun check_link_loop :: "(string \<rightharpoonup> string list) \<Rightarrow> (string \<times> string) list \<Rightarrow> check_state \<Rightarrow> check_state" where
  "check_link_loop parsed_configs [] st = st"
| "check_link_loop parsed_configs ((ep1, ep2) # rest) st =
     check_link_loop parsed_configs rest
       (check_endpoint parsed_configs ep2 (check_endpoint parsed_configs ep1 st))"

definition check_links_vs_configs :: "(string \<rightharpoonup> string list) \<Rightarrow> (string \<times> string) list \<Rightarrow> check_state" where
  "check_links_vs_configs parsed_configs links =
     (let st = check_link_loop parsed_configs links
                 \<lparr>missing_devices = [], missing_interfaces = [], printed = []\<rparr>;
          st1 = (if missing_devices st \<noteq> []
                 then st\<lparr>printed := printed st @ [MissingDevices (sort (missing_devices st))]\<rparr>
                 else st\<lparr>printed := printed st @ [NoMissingDevices]\<rparr>)
      in if missing_interfaces st1 \<noteq> []
         then st1\<lparr>printed := printed st1 @ [MissingInterfaces (sort (missing_interfaces st1))]\<rparr>
         else st1\<lparr>printed := printed st1 @ [NoMissingInterfaces]\<rparr>)"

section \<open>The graph model: networkx's \<open>Graph\<close>\<close>

text \<open>
  The programs keep their topology in a \<open>networkx.Graph\<close>: an undirected graph without
  parallel edges, with a dictionary of attributes on every node and on every edge.
  Dictionaries keep insertion order, so both are association lists here: the nodes in
  the order they were added, and one entry for every edge, in the order the edges were
  first added. The neighbours of a node are the other ends of its edges, in that order,
  which is the order of networkx's adjacency dictionary.
\<close>

datatype aval = AStr string | AInt int | ABool bool

type_synonym attrs = "(string \<times> aval) list"

record graph =
  gnodes :: "(string \<times> attrs) list"
  gedges :: "((string \<times> string) \<times> attrs) list"

datatype nx_error =
    NetworkXPointlessConcept
  | NetworkXError
  | ValueError
  | ZeroDivisionError
  | KeyError
  | EOFError

definition empty_graph :: graph where
  "empty_graph = \<lparr>gnodes = [], gedges = []\<rparr>"

text \<open>\<open>d.update(attr)\<close>: a key that is present keeps its place and takes the new
  value, a new key goes to the end.\<close>

definition dict_update :: "attrs \<Rightarrow> attrs \<Rightarrow> attrs" where
  "dict_update d attr = fold (\<lambda>(k, v). AList.update k v) attr d"

definition nodes_of :: "graph \<Rightarrow> string list" where
  "nodes_of G = map fst (gnodes G)"

definition has_node :: "graph \<Rightarrow> string \<Rightarrow> bool" where
  "has_node G n = (n \<in> set (nodes_of G))"

definition number_of_nodes :: "graph \<Rightarrow> nat" where
  "number_of_nodes G = length (gnodes G)"

definition number_of_edges :: "graph \<Rightarrow> nat" where
  "number_of_edges G = length (gedges G)"

text \<open>\<open>G.add_node(n, **attr)\<close>\<close>

definition add_node :: "string \<Rightarrow> attrs \<Rightarrow> graph \<Rightarrow> graph" where
  "add_node n attr G =
     (if has_node G n
      then G\<lparr>gnodes := map (\<lambda>(m, d). if m = n then (m, dict_update d attr) else (m, d)) (gnodes G)\<rparr>
      else G\<lparr>gnodes := gnodes G @ [(n, dict_update [] attr)]\<rparr>)"

definition joins :: "string \<Rightarrow> string \<Rightarrow> (string \<times> string) \<Rightarrow> bool" where
  "joins u v e = (e = (u, v) \<or> e = (v, u))"

definition has_edge :: "graph \<Rightarrow> string \<Rightarrow> string \<Rightarrow> bool" where
  "has_edge G u v = (\<exists>e \<in> set (gedges G). joins u v (fst e))"

text \<open>
  \<open>G.add_edge(u, v, **attr)\<close>: an endpoint that is not in the graph is added to it,
  with no attributes; an edge that is already there takes the new attributes and no
  second edge is made.
\<close>

definition ensure_node :: "string \<Rightarrow> graph \<Rightarrow> graph" where
  "ensure_node n G = (if has_node G n then G else G\<lparr>gnodes := gnodes G @ [(n, [])]\<rparr>)"

definition add_edge :: "string \<Rightarrow> string \<Rightarrow> attrs \<Rightarrow> graph \<Rightarrow> graph" where
  "add_edge u v attr G =
     (let G1 = ensure_node v (ensure_node u G)
      in if has_edge G1 u v
         then G1\<lparr>gedges := map (\<lambda>(e, d). if joins u v e then (e, dict_update d attr) else (e, d))
                               (gedges G1)\<rparr>
         else G1\<lparr>gedges := gedges G1 @ [((u, v), dict_update [] attr)]\<rparr>)"


text \<open>The keys of \<open>G[v]\<close>, in order. A loop on \<open>v\<close> makes \<open>v\<close> its own neighbour,
  once.\<close>

definition neighbors :: "graph \<Rightarrow> string \<Rightarrow> string list" where
  "neighbors G v =
     concat (map (\<lambda>(e, d). if fst e = v then [snd e] else if snd e = v then [fst e] else [])
                 (gedges G))"

text \<open>\<open>G.degree(v)\<close>: the number of edge ends at \<open>v\<close>; a loop counts twice.\<close>

definition degree :: "graph \<Rightarrow> string \<Rightarrow> nat" where
  "degree G v =
     sum_list (map (\<lambda>(e, d). (if fst e = v then 1 else 0) + (if snd e = v then 1 else 0))
                   (gedges G))"

definition edge_attrs :: "graph \<Rightarrow> string \<Rightarrow> string \<Rightarrow> attrs option" where
  "edge_attrs G u v = map_option snd (find (\<lambda>(e, d). joins u v e) (gedges G))"

section \<open>topology\_builder.py: the generators\<close>

definition link :: "int \<Rightarrow> int \<Rightarrow> string \<Rightarrow> attrs" where
  "link bandwidth mtu link_type =
     [(''bandwidth'', AInt bandwidth), (''mtu'', AInt mtu), (''up'', ABool True),
      (''link_type'', AStr link_type)]"

subsection \<open>\<open>create_tree_topology\<close>\<close>

text \<open>
  The state of the loops: the graph, \<open>remaining_nodes\<close> and \<open>next_level_nodes\<close>.
  \<open>attach_children\<close> is the loop \<open>for _ in range(children_count)\<close> under one parent,
  \<open>level_loop\<close> the loop over the parents of the current level, and \<open>tree_loop\<close> the
  \<open>while\<close> loop, which returns its last state when its condition fails.
\<close>

fun attach_children :: "nat \<Rightarrow> string \<Rightarrow> int \<Rightarrow> graph \<times> string list \<times> string list
    \<Rightarrow> graph \<times> string list \<times> string list" where
  "attach_children 0 parent level st = st"
| "attach_children (Suc k) parent level (G, remaining_nodes, next_level_nodes) =
     (case remaining_nodes of
        [] \<Rightarrow> (G, remaining_nodes, next_level_nodes)
      | child # rest \<Rightarrow>
          attach_children k parent level
            (add_edge parent child (link 1000 1500 ''ethernet'')
               (add_node child [(''role'', AStr ''branch''), (''device_type'', AStr ''switch''),
                                (''level'', AInt level)] G),
             rest, next_level_nodes @ [child]))"

fun level_loop :: "string list \<Rightarrow> int \<Rightarrow> int \<Rightarrow> graph \<times> string list \<times> string list
    \<Rightarrow> graph \<times> string list \<times> string list" where
  "level_loop [] branching_factor level st = st"
| "level_loop (parent # parents) branching_factor level (G, remaining_nodes, next_level_nodes) =
     level_loop parents branching_factor level
       (attach_children (nat (min branching_factor (int (length remaining_nodes)))) parent level
          (G, remaining_nodes, next_level_nodes))"

partial_function (option) tree_loop :: "int \<Rightarrow> graph \<Rightarrow> string list \<Rightarrow> string list \<Rightarrow> int
    \<Rightarrow> (graph \<times> string list \<times> string list) option" where
  "tree_loop branching_factor G remaining_nodes current_level_nodes level =
     (if remaining_nodes \<noteq> [] \<and> current_level_nodes \<noteq> []
      then (case level_loop current_level_nodes branching_factor level (G, remaining_nodes, [])
            of (G', remaining', next_level_nodes) \<Rightarrow>
                 tree_loop branching_factor G' remaining' next_level_nodes (level + 1))
      else Some (G, remaining_nodes, current_level_nodes))"

declare tree_loop.simps [code]

definition create_tree_topology :: "string list \<Rightarrow> int \<Rightarrow> graph option" where
  "create_tree_topology nodes branching_factor =
     (case nodes of
        [] \<Rightarrow> Some empty_graph
      | root_node # rest \<Rightarrow>
          map_option fst
            (tree_loop branching_factor
               (add_node root_node [(''role'', AStr ''root''), (''device_type'', AStr ''switch''),
                               (''level'', AInt 0)] empty_graph)
               rest [root_node] 1))"

subsection \<open>\<open>create_star_topology\<close>, \<open>create_ring_topology\<close>, \<open>create_mesh_topology\<close>,
  \<open>create_bus_topology\<close>\<close>

definition create_star_topology :: "string list \<Rightarrow> graph" where
  "create_star_topology nodes =
     (if length nodes < 2 then empty_graph
      else (let center = hd nodes;
                G = add_node center [(''role'', AStr ''hub''), (''device_type'', AStr ''switch'')]
                      empty_graph
            in fold (\<lambda>node G.
                      add_edge center node (link 1000 1500 ''ethernet'')
                        (add_node node [(''role'', AStr ''endpoint''),
                                        (''device_type'', AStr ''host'')] G))
                 (tl nodes) G))"

text \<open>The second loop of the ring generator runs over the indices; \<open>i\<close> and
  \<open>(i + 1) % len(nodes)\<close> are both within the list.\<close>

definition create_ring_topology :: "string list \<Rightarrow> graph" where
  "create_ring_topology nodes =
     (if length nodes < 3 then empty_graph
      else (let G = fold (\<lambda>node. add_node node [(''device_type'', AStr ''router'')]) nodes
                      empty_graph
            in fold (\<lambda>i. add_edge (nodes ! i) (nodes ! ((i + 1) mod length nodes))
                            (link 1000 1500 ''serial''))
                 [0..<length nodes] G))"




subsection \<open>\<open>create_spine_leaf_topology\<close>\<close>

text \<open>\<open>str(n)\<close> for a natural number: its decimal digits.\<close>

definition digit_char :: "nat \<Rightarrow> char" where
  "digit_char d = char_of (48 + d)"

fun str_nat :: "nat \<Rightarrow> string" where
  "str_nat n = (if n < 10 then [digit_char n] else str_nat (n div 10) @ [digit_char (n mod 10)])"

declare str_nat.simps [simp del]

text \<open>\<open>range(k)\<close> for an integer \<open>k\<close> is empty when \<open>k\<close> is negative.\<close>

definition range_int :: "int \<Rightarrow> nat list" where
  "range_int k = [0..<nat k]"

definition spine_names :: "int \<Rightarrow> string list" where
  "spine_names spine_count = map (\<lambda>i. ''spine'' @ str_nat (i + 1)) (range_int spine_count)"

definition leaf_names :: "int \<Rightarrow> string list" where
  "leaf_names leaf_count = map (\<lambda>i. ''leaf'' @ str_nat (i + 1)) (range_int leaf_count)"

definition host_name :: "string \<Rightarrow> nat \<Rightarrow> string" where
  "host_name leaf i = leaf @ ''-host'' @ str_nat (i + 1)"

definition spine_link :: attrs where
  "spine_link = link 10000 9000 ''ethernet''"

definition host_link :: attrs where
  "host_link = link 1000 1500 ''ethernet''"

definition add_host :: "string \<Rightarrow> nat \<Rightarrow> graph \<Rightarrow> graph" where
  "add_host leaf i G =
     add_edge leaf (host_name leaf i) host_link
       (add_node (host_name leaf i)
          [(''role'', AStr ''host''), (''device_type'', AStr ''server''), (''tier'', AStr ''access'')]
          G)"

definition create_spine_leaf_topology :: "int \<Rightarrow> int \<Rightarrow> graph" where
  "create_spine_leaf_topology spine_count leaf_count =
     (let spine_nodes = spine_names spine_count;
          G1 = fold (\<lambda>spine. add_node spine [(''role'', AStr ''spine''),
                       (''device_type'', AStr ''switch''), (''tier'', AStr ''spine'')])
                 spine_nodes empty_graph;
          leaf_nodes = leaf_names leaf_count;
          G2 = fold (\<lambda>leaf. add_node leaf [(''role'', AStr ''leaf''),
                       (''device_type'', AStr ''switch''), (''tier'', AStr ''leaf'')])
                 leaf_nodes G1;
          G3 = fold (\<lambda>spine. fold (\<lambda>leaf. add_edge spine leaf spine_link) leaf_nodes)
                 spine_nodes G2;
          host_count = 2
      in fold (\<lambda>leaf. fold (add_host leaf) (range_int host_count)) leaf_nodes G3)"

section \<open>Graph algorithms of networkx used by the programs\<close>

subsection \<open>Breadth-first search, connectivity and components\<close>

text \<open>
  One level of the search: every neighbour \<open>w\<close> of every node of \<open>thislevel\<close> that is not in
  \<open>seen\<close> is added to \<open>seen\<close> and to \<open>nextlevel\<close>.
\<close>

definition visit :: "string list \<Rightarrow> string list \<times> string list \<Rightarrow> string list \<times> string list" where
  "visit ws st =
     fold (\<lambda>w (seen, nextlevel).
             if w \<in> set seen then (seen, nextlevel) else (seen @ [w], nextlevel @ [w]))
          ws st"

definition expand :: "graph \<Rightarrow> string list \<Rightarrow> string list \<Rightarrow> string list \<times> string list" where
  "expand G thislevel seen = fold (\<lambda>v. visit (neighbors G v)) thislevel (seen, [])"

text \<open>Every node a search can come across: the nodes and the ends of the edges.\<close>

definition universe :: "graph \<Rightarrow> string set" where
  "universe G = set (nodes_of G) \<union> fst ` fst ` set (gedges G) \<union> snd ` fst ` set (gedges G)"

lemma neighbors_universe: "set (neighbors G v) \<subseteq> universe G"
  by (force simp: neighbors_def universe_def split: if_splits)

lemma visit_sets:
  "visit ws (seen, nxt) = (seen', nxt') \<Longrightarrow>
     set seen' = set seen \<union> set ws \<and> set nxt' = set nxt \<union> (set ws - set seen)
     \<and> (\<exists>new. seen' = seen @ new \<and> nxt' = nxt @ new)"
proof (induction ws arbitrary: seen nxt)
  case Nil
  then show ?case by (simp add: visit_def)
next
  case (Cons w ws)
  show ?case
  proof (cases "w \<in> set seen")
    case True
    with Cons.prems have "visit ws (seen, nxt) = (seen', nxt')" by (simp add: visit_def)
    from Cons.IH [OF this] True show ?thesis by auto
  next
    case False
    with Cons.prems have "visit ws (seen @ [w], nxt @ [w]) = (seen', nxt')"
      by (simp add: visit_def)
    from Cons.IH [OF this] False show ?thesis by auto
  qed
qed

lemma expand_sets_aux:
  "fold (\<lambda>v. visit (neighbors G v)) level (seen, nxt) = (seen', nxt') \<Longrightarrow>
     set seen' = set seen \<union> (\<Union>v\<in>set level. set (neighbors G v))
     \<and> set nxt' = set nxt \<union> ((\<Union>v\<in>set level. set (neighbors G v)) - set seen)
     \<and> (\<exists>new. seen' = seen @ new \<and> nxt' = nxt @ new)"
proof (induction level arbitrary: seen nxt)
  case Nil
  then show ?case by simp
next
  case (Cons v level)
  obtain s1 n1 where v: "visit (neighbors G v) (seen, nxt) = (s1, n1)" by (metis surj_pair)
  with Cons.prems have "fold (\<lambda>v. visit (neighbors G v)) level (s1, n1) = (seen', nxt')" by simp
  from Cons.IH [OF this] visit_sets [OF v] show ?case by auto
qed

lemma expand_sets:
  "expand G level seen = (seen', nxt) \<Longrightarrow>
     set seen' = set seen \<union> (\<Union>v\<in>set level. set (neighbors G v))
     \<and> set nxt = (\<Union>v\<in>set level. set (neighbors G v)) - set seen
     \<and> seen' = seen @ nxt"
  using expand_sets_aux [of G level seen "[]" seen' nxt] by (auto simp: expand_def)

lemma expand_decreases:
  assumes "expand G level seen = (seen', nxt)" and "level \<noteq> []"
  shows "card (universe G - set seen') < card (universe G - set seen)
         \<or> card (universe G - set seen') = card (universe G - set seen) \<and> length nxt < length level"
proof (cases "nxt = []")
  case True
  with expand_sets [OF assms(1)] assms(2) show ?thesis by simp
next
  case False
  then obtain w where w: "w \<in> set nxt" by (cases nxt) auto
  from expand_sets [OF assms(1)] have s: "set seen' = set seen \<union> set nxt"
    and n: "set nxt = (\<Union>v\<in>set level. set (neighbors G v)) - set seen" by auto
  have fin: "finite (universe G)" by (simp add: universe_def)
  from w n neighbors_universe have "w \<in> universe G - set seen" "w \<notin> universe G - set seen'"
    using s by auto
  moreover have "universe G - set seen' \<subseteq> universe G - set seen" using s by auto
  ultimately have "universe G - set seen' \<subset> universe G - set seen" by blast
  with fin show ?thesis by (simp add: psubset_card_mono)
qed

text \<open>\<open>_plain_bfs\<close>: the nodes reached from the start, level after level.\<close>

function plain_bfs :: "graph \<Rightarrow> string list \<Rightarrow> string list \<Rightarrow> string list" where
  "plain_bfs G seen thislevel =
     (if thislevel = [] then seen
      else (case expand G thislevel seen of (seen', nextlevel) \<Rightarrow> plain_bfs G seen' nextlevel))"
  by pat_completeness auto
termination
  apply (relation "measures [\<lambda>(G, seen, level). card (universe G - set seen),
                             \<lambda>(G, seen, level). length level]")
   apply simp
  subgoal premises p for G seen thislevel seen' nextlevel
  proof -
    have e: "expand G thislevel seen = (seen', nextlevel)" using p by simp
    from expand_decreases [OF e] p show ?thesis by (auto simp: e)
  qed
  done

declare plain_bfs.simps [simp del]

text \<open>
  \<open>single_source_shortest_path_length\<close>: the same search, keeping the levels; a node of
  level \<open>d\<close> is at distance \<open>d\<close> from the source.
\<close>

function bfs_levels :: "graph \<Rightarrow> string list \<Rightarrow> string list \<Rightarrow> string list list" where
  "bfs_levels G seen thislevel =
     (if thislevel = [] then []
      else thislevel # (case expand G thislevel seen of
                          (seen', nextlevel) \<Rightarrow> bfs_levels G seen' nextlevel))"
  by pat_completeness auto
termination
  apply (relation "measures [\<lambda>(G, seen, level). card (universe G - set seen),
                             \<lambda>(G, seen, level). length level]")
   apply simp
  subgoal premises p for G seen thislevel seen' nextlevel
  proof -
    have e: "expand G thislevel seen = (seen', nextlevel)" using p by simp
    from expand_decreases [OF e] p show ?thesis by (auto simp: e)
  qed
  done

declare bfs_levels.simps [simp del]

definition shortest_path_length :: "graph \<Rightarrow> string \<Rightarrow> (string \<times> nat) list" where
  "shortest_path_length G source =
     concat (map (\<lambda>(d, level). map (\<lambda>v. (v, d)) level)
                 (enumerate 0 (bfs_levels G [source] [source])))"

text \<open>\<open>nx.is_connected\<close> raises \<open>NetworkXPointlessConcept\<close> on the graph without nodes.
  Otherwise it searches from the first node and compares the number of nodes reached
  with the number of nodes.\<close>

definition is_connected :: "graph \<Rightarrow> nx_error + bool" where
  "is_connected G =
     (case nodes_of G of
        [] \<Rightarrow> Inl NetworkXPointlessConcept
      | source # _ \<Rightarrow> Inr (length (plain_bfs G [source] [source]) = number_of_nodes G))"



text \<open>
  \<open>nx.eccentricity\<close> and \<open>nx.diameter\<close>. The eccentricity of a node is its largest
  distance; it raises \<open>NetworkXError\<close> when the search from the node does not reach all
  nodes. The diameter is the largest eccentricity; \<open>max\<close> of no value is a \<open>ValueError\<close>.
\<close>

definition py_max :: "nat list \<Rightarrow> nx_error + nat" where
  "py_max xs = (case xs of [] \<Rightarrow> Inl ValueError | x # rest \<Rightarrow> Inr (fold max rest x))"

definition eccentricity_of :: "graph \<Rightarrow> string \<Rightarrow> nx_error + nat" where
  "eccentricity_of G v =
     (let lengths = shortest_path_length G v
      in if length lengths \<noteq> number_of_nodes G then Inl NetworkXError
         else py_max (map snd lengths))"

fun eccentricity :: "graph \<Rightarrow> string list \<Rightarrow> nx_error + nat list" where
  "eccentricity G [] = Inr []"
| "eccentricity G (v # vs) =
     (case eccentricity_of G v of
        Inl e \<Rightarrow> Inl e
      | Inr x \<Rightarrow> (case eccentricity G vs of Inl e \<Rightarrow> Inl e | Inr xs \<Rightarrow> Inr (x # xs)))"

definition diameter :: "graph \<Rightarrow> nx_error + nat" where
  "diameter G =
     (case eccentricity G (nodes_of G) of Inl e \<Rightarrow> Inl e | Inr es \<Rightarrow> py_max es)"

subsection \<open>\<open>Graph.copy\<close>, \<open>Graph.edges\<close> and \<open>nx.union\<close>\<close>


definition add_nodes_from :: "(string \<times> attrs) list \<Rightarrow> graph \<Rightarrow> graph" where
  "add_nodes_from ns G = fold (\<lambda>(n, d). add_node n d) ns G"






subsection \<open>\<open>create_hybrid_topology\<close>\<close>






subsection \<open>Density and clustering\<close>

text \<open>The values of a metrics dictionary. Python's floats are idealised as rationals;
  \<open>float('inf')\<close> is a value of its own.\<close>

datatype mval = MInt int | MFloat rat | MInf | MBool bool

definition density :: "graph \<Rightarrow> mval" where
  "density G =
     (let n = number_of_nodes G; m = number_of_edges G
      in if m = 0 \<or> n \<le> 1 then MInt 0
         else MFloat (2 * (of_nat m / of_nat (n * (n - 1)))))"

text \<open>\<open>set(G[v]) - {v}\<close>\<close>

definition proper_neighbors :: "graph \<Rightarrow> string \<Rightarrow> string list" where
  "proper_neighbors G v = remdups (filter (\<lambda>w. w \<noteq> v) (neighbors G v))"

definition triangles_of :: "graph \<Rightarrow> string \<Rightarrow> nat" where
  "triangles_of G v =
     sum_list (map (\<lambda>w. length (filter (\<lambda>x. x \<in> set (proper_neighbors G w)) (proper_neighbors G v)))
                   (proper_neighbors G v))"

definition clustering_of :: "graph \<Rightarrow> string \<Rightarrow> rat" where
  "clustering_of G v =
     (let d = length (proper_neighbors G v); t = triangles_of G v
      in if t = 0 then 0 else of_nat t / of_nat (d * (d - 1)))"

text \<open>\<open>nx.average_clustering\<close> divides by the number of nodes.\<close>

definition average_clustering :: "graph \<Rightarrow> nx_error + rat" where
  "average_clustering G =
     (let c = map (clustering_of G) (nodes_of G)
      in if c = [] then Inl ZeroDivisionError else Inr (sum_list c / of_nat (length c)))"

subsection \<open>Articulation points\<close>



















subsection \<open>\<open>add_topology_metrics\<close>\<close>

text \<open>
  The metrics are a dictionary from names to values. Its entries are evaluated in the
  order of the dictionary display, so the first call that raises decides the error.
\<close>

definition add_topology_metrics :: "graph \<Rightarrow> nx_error + (string \<times> mval) list" where
  "add_topology_metrics G =
     (case is_connected G of
        Inl e \<Rightarrow> Inl e
      | Inr conn \<Rightarrow>
          (case (if conn
                 then (case diameter G of Inl e \<Rightarrow> Inl e | Inr d \<Rightarrow> Inr (MInt (int d)))
                 else Inr MInf) of
             Inl e \<Rightarrow> Inl e
           | Inr diam \<Rightarrow>
               (case average_clustering G of
                  Inl e \<Rightarrow> Inl e
                | Inr clustering \<Rightarrow>
                    (case is_connected G of
                       Inl e \<Rightarrow> Inl e
                     | Inr conn' \<Rightarrow>
                         (let entries =
                                [(''node_count'', MInt (int (number_of_nodes G))),
                                 (''edge_count'', MInt (int (number_of_edges G))),
                                 (''density'', density G),
                                 (''diameter'', diam),
                                 (''average_clustering'', MFloat clustering),
                                 (''is_connected'', MBool conn')];
                              degrees = map (degree G) (nodes_of G)
                          in Inr (if degrees \<noteq> []
                                  then entries @
                                    [(''avg_degree'',
                                        MFloat (of_nat (sum_list degrees) / of_nat (length degrees))),
                                     (''max_degree'', MInt (int (Max (set degrees)))),
                                     (''min_degree'', MInt (int (Min (set degrees))))]
                                  else entries))))))"

section \<open>main.py\<close>

subsection \<open>\<open>analyze_topology\<close>\<close>





subsection \<open>\<open>simulate_failure\<close>\<close>







subsection \<open>\<open>create_custom_topology\<close>\<close>

text \<open>
  The function reads its input line by line; the lines the user will type are a list,
  and \<open>input()\<close> on the empty list is an \<open>EOFError\<close>. \<open>s.split(",")\<close> cuts at every comma.
\<close>

fun split_all :: "char \<Rightarrow> string \<Rightarrow> string list" where
  "split_all c [] = [[]]"
| "split_all c (x # xs) =
     (if x = c then [] # split_all c xs
      else (case split_all c xs of [] \<Rightarrow> [[x]] | p # ps \<Rightarrow> (x # p) # ps))"

text \<open>\<open>str.isdigit()\<close> on code points below 256 holds for a non-empty string of the ten
  digits and the superscripts one, two and three; \<open>int()\<close> takes only the ten digits and
  raises \<open>ValueError\<close> on the superscripts.\<close>

definition ascii_digit :: "char \<Rightarrow> bool" where
  "ascii_digit c = (48 \<le> (of_char c :: nat) \<and> (of_char c :: nat) \<le> 57)"

definition isdigit :: "string \<Rightarrow> bool" where
  "isdigit s = (s \<noteq> [] \<and> (\<forall>c\<in>set s. ascii_digit c \<or> (of_char c :: nat) \<in> {178, 179, 185}))"

definition int_of_digits :: "string \<Rightarrow> nx_error + int" where
  "int_of_digits s =
     (if s \<noteq> [] \<and> (\<forall>c\<in>set s. ascii_digit c)
      then Inr (fold (\<lambda>c n. 10 * n + (int (of_char c) - 48)) s 0)
      else Inl ValueError)"

datatype custom_msg =
    NoNodesSpecified
  | AddedNodes nat
  | InvalidFormat
  | UnknownNodes "string list"
  | AlreadyExists string string
  | AddedConnection string string
  | ErrorAddingConnection nx_error
  | CustomCreated nat nat

text \<open>The loop over the nodes: one line of input for the device type of each.\<close>

fun node_loop :: "string list \<Rightarrow> string list \<Rightarrow> graph \<Rightarrow> nx_error + (string list \<times> graph)" where
  "node_loop [] inputs G = Inr (inputs, G)"
| "node_loop (node # nodes) [] G = Inl EOFError"
| "node_loop (node # nodes) (line # inputs) G =
     node_loop nodes inputs
       (add_node node [(''device_type'', AStr (if strip line = [] then ''router'' else strip line))] G)"

text \<open>
  The loop over the connections. A connection that names a node outside the list of
  nodes is answered with a message and the loop goes on with the next line. The
  bandwidth is read inside the \<open>try\<close> block, whose \<open>except Exception\<close> turns an
  \<open>EOFError\<close> or a \<open>ValueError\<close> into a message.
\<close>

fun connection_loop :: "string list \<Rightarrow> graph \<Rightarrow> string list \<Rightarrow> custom_msg list
    \<Rightarrow> custom_msg list \<times> (nx_error + graph)" where
  "connection_loop nodes G [] out = (out, Inl EOFError)"
| "connection_loop nodes G (line # inputs) out =
     (let connection = strip line
      in if lower connection = ''done'' then (out, Inr G)
         else if CHR ''-'' \<notin> set connection
           then connection_loop nodes G inputs (out @ [InvalidFormat])
         else (let (left, right) = split_once CHR ''-'' connection;
                   node1 = strip left; node2 = strip right
               in if node1 \<notin> set nodes \<or> node2 \<notin> set nodes
                    then connection_loop nodes G inputs (out @ [UnknownNodes nodes])
                  else if has_edge G node1 node2
                    then connection_loop nodes G inputs (out @ [AlreadyExists node1 node2])
                  else (case inputs of
                          [] \<Rightarrow> connection_loop nodes G [] (out @ [ErrorAddingConnection EOFError])
                        | answer # inputs' \<Rightarrow>
                            (let bandwidth = strip answer
                             in if isdigit bandwidth
                                then (case int_of_digits bandwidth of
                                        Inl e \<Rightarrow>
                                          connection_loop nodes G inputs'
                                            (out @ [ErrorAddingConnection e])
                                      | Inr b \<Rightarrow>
                                          connection_loop nodes
                                            (add_edge node1 node2 (link b 1500 ''ethernet'') G)
                                            inputs' (out @ [AddedConnection node1 node2]))
                                else connection_loop nodes
                                       (add_edge node1 node2 (link 1000 1500 ''ethernet'') G)
                                       inputs' (out @ [AddedConnection node1 node2])))))"

definition create_custom_topology :: "string list \<Rightarrow> custom_msg list \<times> (nx_error + graph option)" where
  "create_custom_topology inputs =
     (case inputs of
        [] \<Rightarrow> ([], Inl EOFError)
      | line # inputs1 \<Rightarrow>
          (let nodes_input = strip line
           in if nodes_input = [] then ([NoNodesSpecified], Inr None)
              else (let nodes = map strip (split_all CHR '','' nodes_input)
                    in case node_loop nodes inputs1 empty_graph of
                         Inl e \<Rightarrow> ([], Inl e)
                       | Inr (inputs2, G) \<Rightarrow>
                           (case connection_loop nodes G inputs2 [AddedNodes (length nodes)] of
                              (out, Inl e) \<Rightarrow> (out, Inl e)
                            | (out, Inr G') \<Rightarrow>
                                (out @ [CustomCreated (number_of_nodes G') (number_of_edges G')],
                                 Inr (Some G'))))))"

section \<open>Properties of the link-list parser\<close>

lemma read_lines_append:
  "read_lines (xs @ ys) st = read_lines ys (read_lines xs st)"
  by (induction xs arbitrary: st) simp_all

lemma read_line_links_prefix:
  "\<exists>new. fst (read_line raw st) = fst st @ new \<and> (\<forall>st'. fst (read_line raw st') = fst st' @ new)"
  by (auto simp: read_line_def Let_def split: prod.splits)

lemma check_link_loop_append:
  "check_link_loop cfg (xs @ ys) st = check_link_loop cfg ys (check_link_loop cfg xs st)"
  by (induction xs arbitrary: st) auto


lemma takeWhile_until_first:
  "c \<notin> set a \<Longrightarrow> takeWhile (\<lambda>x. x \<noteq> c) (a @ c # b) = a"
  by (induction a) auto

lemma dropWhile_until_first:
  "c \<notin> set a \<Longrightarrow> dropWhile (\<lambda>x. x \<noteq> c) (a @ c # b) = c # b"
  by (induction a) auto

text \<open>The endpoints of a list of links, in the order in which the existence check
  looks at them.\<close>

definition endpoints :: "(string \<times> string) list \<Rightarrow> string list" where
  "endpoints links = concat (map (\<lambda>(ep1, ep2). [ep1, ep2]) links)"

lemma read_line_links:
  "fst (read_line raw (l, d)) = fst (read_line raw (l, d'))"
  by (simp add: read_line_def Let_def split: prod.splits)

lemma read_lines_links:
  "fst (read_lines ys (l, d)) = fst (read_lines ys (l, d'))"
proof (induction ys arbitrary: l d d')
  case Nil
  show ?case by simp
next
  case (Cons raw ys)
  obtain l1 d1 where a: "read_line raw (l, d) = (l1, d1)" by (metis surj_pair)
  obtain l2 d2 where b: "read_line raw (l, d') = (l2, d2)" by (metis surj_pair)
  from read_line_links [of raw l d d'] have "l1 = l2" unfolding a b by simp
  with Cons.IH [of l1 d1 d2] show ?case unfolding read_lines.simps a b by simp
qed

lemma check_link_loop_fold:
  "check_link_loop cfg links st = fold (check_endpoint cfg) (endpoints links) st"
proof (induction links arbitrary: st)
  case Nil
  show ?case by (simp add: endpoints_def)
next
  case (Cons link links)
  obtain ep1 ep2 where l: "link = (ep1, ep2)" by (metis surj_pair)
  have e: "endpoints (link # links) = ep1 # ep2 # endpoints links"
    by (simp add: endpoints_def l)
  show ?case by (simp add: e [unfolded l] l Cons.IH)
qed

lemma check_endpoint_printed:
  "printed (check_endpoint cfg ep st)
     = printed st @ (if CHR '':'' \<notin> set ep then [InvalidEndpoint ep] else [])"
  by (simp add: check_endpoint_def Let_def split: prod.splits option.splits)

lemma fold_check_endpoint_printed:
  "printed (fold (check_endpoint cfg) eps st)
     = printed st @ map InvalidEndpoint (filter (\<lambda>ep. CHR '':'' \<notin> set ep) eps)"
  by (induction eps arbitrary: st) (simp_all add: check_endpoint_printed)

lemma check_endpoint_missing:
  assumes "missing_devices st = missing_devices st'"
    and "missing_interfaces st = missing_interfaces st'"
  shows "missing_devices (check_endpoint cfg ep st) = missing_devices (check_endpoint cfg ep st')
     \<and> missing_interfaces (check_endpoint cfg ep st) = missing_interfaces (check_endpoint cfg ep st')"
  using assms by (simp add: check_endpoint_def Let_def split: prod.splits option.splits)

lemma check_endpoint_invalid:
  "CHR '':'' \<notin> set ep \<Longrightarrow>
     missing_devices (check_endpoint cfg ep st) = missing_devices st
     \<and> missing_interfaces (check_endpoint cfg ep st) = missing_interfaces st"
  by (simp add: check_endpoint_def)

lemma fold_check_endpoint_missing:
  assumes "missing_devices st = missing_devices st'"
    and "missing_interfaces st = missing_interfaces st'"
  shows "missing_devices (fold (check_endpoint cfg) eps st)
       = missing_devices (fold (check_endpoint cfg) (filter (\<lambda>ep. CHR '':'' \<in> set ep) eps) st')
     \<and> missing_interfaces (fold (check_endpoint cfg) eps st)
       = missing_interfaces (fold (check_endpoint cfg) (filter (\<lambda>ep. CHR '':'' \<in> set ep) eps) st')"
  using assms
proof (induction eps arbitrary: st st')
  case Nil
  then show ?case by simp
next
  case (Cons ep eps)
  show ?case
  proof (cases "CHR '':'' \<in> set ep")
    case True
    from check_endpoint_missing [OF Cons.prems, of cfg ep]
    have "missing_devices (check_endpoint cfg ep st) = missing_devices (check_endpoint cfg ep st')"
      "missing_interfaces (check_endpoint cfg ep st) = missing_interfaces (check_endpoint cfg ep st')"
      by blast+
    from Cons.IH [OF this] show ?thesis using True by simp
  next
    case False
    from check_endpoint_invalid [OF False, of cfg st] Cons.prems
    have "missing_devices (check_endpoint cfg ep st) = missing_devices st'"
      "missing_interfaces (check_endpoint cfg ep st) = missing_interfaces st'"
      by simp_all
    from Cons.IH [OF this] show ?thesis using False by simp
  qed
qed

text \<open>
  Claim C9 says that parsing is never fatal for every link-list input. That fails for a
  link file whose bytes do not decode: \<open>read_links\<close> ends with \<open>UnicodeDecodeError\<close> and
  returns no list. (A file that cannot be opened ends it with \<open>PermissionError\<close>.)
\<close>

theorem read_links_undecodable_file_raises:
  "read_links [''configs/links.txt'' \<mapsto> Undecodable []] ''configs/links.txt''
     = Inl (UnicodeDecodeError, [])
   \<and> read_links [''configs/links.txt'' \<mapsto> Undecodable [''R1:Gig0/0 - R2:Gig0/1'', ''R1 R2'']]
       ''configs/links.txt''
     = Inl (UnicodeDecodeError, [SkippingInvalidLine ''R1 R2''])
   \<and> read_links [''configs/links.txt'' \<mapsto> Unreadable] ''configs/links.txt''
     = Inl (PermissionError, [])"
  by (simp add: read_links_def read_line_def strip_def is_space_def startswith_hash_def
      split_once_def)

text \<open>
  Claim C9, amended. Reading a link list that is missing or is text never fails. A
  missing file gives the empty list (and one diagnostic); a text file gives the result
  of the loop over its lines. A line that is blank or starts with \<open>#\<close> after stripping
  adds no entry: the result is that of the file without the line. A line without \<open>-\<close>
  adds no entry, only a diagnostic, and reading goes on with the next lines: the list is
  that of the file without the line. The line \<open>R1:Gig0/0 - R2:Gig0/1\<close> gives the pair
  of its two endpoints. The existence check \<open>check_links_vs_configs\<close> reports every
  endpoint without \<open>:\<close> as invalid, in the order of the links, and goes on: its two
  summaries are those of the check of the other endpoints alone.
\<close>

theorem read_links_text_never_fatal:
  "(fs p = None \<longrightarrow> read_links fs p = Inr ([], [LinksFileNotFound p]))
   \<and> (fs p = Some (Text ls) \<longrightarrow> read_links fs p = Inr (read_lines ls ([], [])))
   \<and> (strip raw = [] \<or> startswith_hash (strip raw) \<longrightarrow>
        read_links (fs(p \<mapsto> Text (xs @ raw # ys))) p = read_links (fs(p \<mapsto> Text (xs @ ys))) p)
   \<and> (strip raw \<noteq> [] \<and> \<not> startswith_hash (strip raw) \<and> CHR ''-'' \<notin> set (strip raw) \<longrightarrow>
        read_links (fs(p \<mapsto> Text (xs @ raw # ys))) p =
          Inr (read_lines ys (fst (read_lines xs ([], [])),
                              snd (read_lines xs ([], [])) @ [SkippingInvalidLine (strip raw)]))
        \<and> map_sum fst fst (read_links (fs(p \<mapsto> Text (xs @ raw # ys))) p)
            = map_sum fst fst (read_links (fs(p \<mapsto> Text (xs @ ys))) p))
   \<and> read_links [q \<mapsto> Text [''R1:Gig0/0 - R2:Gig0/1'']] q = Inr ([(''R1:Gig0/0'', ''R2:Gig0/1'')], [])
   \<and> (let checked = fold (check_endpoint cfg)
                          (filter (\<lambda>ep. CHR '':'' \<in> set ep) (endpoints links))
                          \<lparr>missing_devices = [], missing_interfaces = [], printed = []\<rparr>
      in printed (check_links_vs_configs cfg links)
          = map InvalidEndpoint (filter (\<lambda>ep. CHR '':'' \<notin> set ep) (endpoints links))
            @ [if missing_devices checked \<noteq> [] then MissingDevices (sort (missing_devices checked))
               else NoMissingDevices,
               if missing_interfaces checked \<noteq> []
               then MissingInterfaces (sort (missing_interfaces checked))
               else NoMissingInterfaces]
        \<and> missing_devices (check_links_vs_configs cfg links) = missing_devices checked
        \<and> missing_interfaces (check_links_vs_configs cfg links) = missing_interfaces checked)"
proof -
  have a: "fs p = None \<longrightarrow> read_links fs p = Inr ([], [LinksFileNotFound p])"
    by (simp add: read_links_def)
  have a': "fs p = Some (Text ls) \<longrightarrow> read_links fs p = Inr (read_lines ls ([], []))"
    by (simp add: read_links_def)
  have b: "strip raw = [] \<or> startswith_hash (strip raw) \<longrightarrow>
        read_links (fs(p \<mapsto> Text (xs @ raw # ys))) p = read_links (fs(p \<mapsto> Text (xs @ ys))) p"
    by (simp add: read_links_def read_lines_append read_line_def Let_def)
  have c1: "read_links (fs(p \<mapsto> Text (xs @ raw # ys))) p =
          Inr (read_lines ys (fst (read_lines xs ([], [])),
                              snd (read_lines xs ([], [])) @ [SkippingInvalidLine (strip raw)]))"
    if "strip raw \<noteq> [] \<and> \<not> startswith_hash (strip raw) \<and> CHR ''-'' \<notin> set (strip raw)"
    using that by (simp add: read_links_def read_lines_append read_line_def Let_def)
  have "fst (read_lines ys (fst (read_lines xs ([], [])),
                            snd (read_lines xs ([], [])) @ [SkippingInvalidLine (strip raw)]))
      = fst (read_lines ys (read_lines xs ([], [])))"
    using read_lines_links [of ys "fst (read_lines xs ([], []))"
        "snd (read_lines xs ([], [])) @ [SkippingInvalidLine (strip raw)]"
        "snd (read_lines xs ([], []))"] by simp
  then have c2: "map_sum fst fst (read_links (fs(p \<mapsto> Text (xs @ raw # ys))) p)
            = map_sum fst fst (read_links (fs(p \<mapsto> Text (xs @ ys))) p)"
    if "strip raw \<noteq> [] \<and> \<not> startswith_hash (strip raw) \<and> CHR ''-'' \<notin> set (strip raw)"
    unfolding c1 [OF that] by (simp add: read_links_def read_lines_append)
  have c: "strip raw \<noteq> [] \<and> \<not> startswith_hash (strip raw) \<and> CHR ''-'' \<notin> set (strip raw) \<longrightarrow>
        read_links (fs(p \<mapsto> Text (xs @ raw # ys))) p =
          Inr (read_lines ys (fst (read_lines xs ([], [])),
                              snd (read_lines xs ([], [])) @ [SkippingInvalidLine (strip raw)]))
        \<and> map_sum fst fst (read_links (fs(p \<mapsto> Text (xs @ raw # ys))) p)
            = map_sum fst fst (read_links (fs(p \<mapsto> Text (xs @ ys))) p)"
    using c1 c2 by (intro impI conjI)
  have d: "read_links [q \<mapsto> Text [''R1:Gig0/0 - R2:Gig0/1'']] q = Inr ([(''R1:Gig0/0'', ''R2:Gig0/1'')], [])"
    by (simp add: read_links_def read_line_def strip_def is_space_def startswith_hash_def
        split_once_def)
  let ?init = "\<lparr>missing_devices = [], missing_interfaces = [], printed = []\<rparr>"
  let ?st = "check_link_loop cfg links ?init"
  let ?checked = "fold (check_endpoint cfg) (filter (\<lambda>ep. CHR '':'' \<in> set ep) (endpoints links)) ?init"
  have pr: "printed ?st = map InvalidEndpoint (filter (\<lambda>ep. CHR '':'' \<notin> set ep) (endpoints links))"
    by (simp add: check_link_loop_fold fold_check_endpoint_printed)
  have ms: "missing_devices ?st = missing_devices ?checked"
    "missing_interfaces ?st = missing_interfaces ?checked"
    unfolding check_link_loop_fold
    using fold_check_endpoint_missing [of ?init ?init cfg "endpoints links"] by simp_all
  have e1: "printed (check_links_vs_configs cfg links)
          = map InvalidEndpoint (filter (\<lambda>ep. CHR '':'' \<notin> set ep) (endpoints links))
            @ [if missing_devices ?checked \<noteq> [] then MissingDevices (sort (missing_devices ?checked))
               else NoMissingDevices,
               if missing_interfaces ?checked \<noteq> []
               then MissingInterfaces (sort (missing_interfaces ?checked))
               else NoMissingInterfaces]"
    unfolding check_links_vs_configs_def Let_def using pr ms by simp
  have e2: "missing_devices (check_links_vs_configs cfg links) = missing_devices ?checked"
    unfolding check_links_vs_configs_def Let_def using ms by simp
  have e3: "missing_interfaces (check_links_vs_configs cfg links) = missing_interfaces ?checked"
    unfolding check_links_vs_configs_def Let_def using ms by simp
  show ?thesis
    unfolding Let_def
    apply (intro conjI)
          apply (rule a)
         apply (rule a')
        apply (rule b)
       apply (rule c)
      apply (rule d)
     apply (rule e1)
    apply (rule e2)
    apply (rule e3)
    done
qed

text \<open>
  The theorem at a concrete file system and link list: no file at all; a comment line
  and a line without a dash between two good lines; and the link \<open>R1-R2\<close>, whose two
  endpoints have no colon, ahead of a link that is then still checked: its device \<open>R4\<close>
  is found missing.
\<close>

theorem read_links_text_never_fatal_witness:
  "read_links Map.empty ''links.txt'' = Inr ([], [LinksFileNotFound ''links.txt''])
   \<and> read_links [''links.txt'' \<mapsto> Text ([''a:1 - b:2''] @ ''  # note'' # [''c:1 - d:2''])] ''links.txt''
       = Inr ([(''a:1'', ''b:2''), (''c:1'', ''d:2'')], [])
   \<and> read_links [''links.txt'' \<mapsto> Text ([''a:1 - b:2''] @ ''R1 R2'' # [''c:1 - d:2''])] ''links.txt''
       = Inr ([(''a:1'', ''b:2''), (''c:1'', ''d:2'')], [SkippingInvalidLine ''R1 R2''])
   \<and> printed (check_links_vs_configs (map_of [(''R3'', [''A''])]) [(''R1'', ''R2''), (''R3:a'', ''R4:b'')])
       = [InvalidEndpoint ''R1'', InvalidEndpoint ''R2'', MissingDevices [''R4''], NoMissingInterfaces]"
proof -
  let ?cfg = "map_of [(''R3'', [''A''])]"
  let ?links = "[(''R1'', ''R2''), (''R3:a'', ''R4:b'')]"
  let ?fs2 = "[''links.txt'' \<mapsto> Text ([''a:1 - b:2''] @ ''  # note'' # [''c:1 - d:2''])]"
  let ?fs3 = "[''links.txt'' \<mapsto> Text ([''a:1 - b:2''] @ ''R1 R2'' # [''c:1 - d:2''])]"
  let ?checked = "fold (check_endpoint ?cfg) (filter (\<lambda>ep. CHR '':'' \<in> set ep) (endpoints ?links))
                    \<lparr>missing_devices = [], missing_interfaces = [], printed = []\<rparr>"
  have ev: "strip ''  # note'' = ''# note''" "strip ''R1 R2'' = ''R1 R2''"
    "read_lines [''a:1 - b:2''] ([], []) = ([(''a:1'', ''b:2'')], [])"
    "\<And>acc. read_lines [''c:1 - d:2''] acc = (fst acc @ [(''c:1'', ''d:2'')], snd acc)"
    by (simp_all add: read_line_def strip_def is_space_def startswith_hash_def split_once_def)
  have h1: "(Map.empty :: string \<rightharpoonup> file_content) ''links.txt'' = None" by simp
  have h2: "strip ''  # note'' = [] \<or> startswith_hash (strip ''  # note'')"
    by (simp add: ev startswith_hash_def)
  have h3: "strip ''R1 R2'' \<noteq> [] \<and> \<not> startswith_hash (strip ''R1 R2'')
      \<and> CHR ''-'' \<notin> set (strip ''R1 R2'')"
    by (simp add: ev startswith_hash_def)
  note t1 = read_links_text_never_fatal [of Map.empty "''links.txt''" "[]" "''  # note''"
      "[''a:1 - b:2'']" "[''c:1 - d:2'']" "''q''" ?cfg ?links]
  note t2 = read_links_text_never_fatal [of Map.empty "''links.txt''" "[]" "''R1 R2''"
      "[''a:1 - b:2'']" "[''c:1 - d:2'']" "''q''" ?cfg ?links]
  have p1: "read_links Map.empty ''links.txt'' = Inr ([], [LinksFileNotFound ''links.txt''])"
    by (rule mp [OF t1 [THEN conjunct1] h1])
  have q2: "read_links ?fs2 ''links.txt''
      = read_links [''links.txt'' \<mapsto> Text ([''a:1 - b:2''] @ [''c:1 - d:2''])] ''links.txt''"
    by (rule mp [OF t1 [THEN conjunct2, THEN conjunct2, THEN conjunct1] h2])
  have p2: "read_links ?fs2 ''links.txt'' = Inr ([(''a:1'', ''b:2''), (''c:1'', ''d:2'')], [])"
    unfolding q2
    by (simp add: read_links_def read_line_def strip_def is_space_def startswith_hash_def
        split_once_def)
  have q3: "read_links ?fs3 ''links.txt''
       = Inr (read_lines [''c:1 - d:2''] (fst (read_lines [''a:1 - b:2''] ([], [])),
           snd (read_lines [''a:1 - b:2''] ([], [])) @ [SkippingInvalidLine (strip ''R1 R2'')]))"
    by (rule mp [OF t2 [THEN conjunct2, THEN conjunct2, THEN conjunct2, THEN conjunct1] h3,
          THEN conjunct1])
  have p3: "read_links ?fs3 ''links.txt''
       = Inr ([(''a:1'', ''b:2''), (''c:1'', ''d:2'')], [SkippingInvalidLine ''R1 R2''])"
    unfolding q3 ev by simp
  have c: "missing_devices ?checked = [''R4'']" "missing_interfaces ?checked = []"
    by code_simp+
  have f: "filter (\<lambda>ep. CHR '':'' \<notin> set ep) (endpoints ?links) = [''R1'', ''R2'']"
    by (simp add: endpoints_def)
  have "printed (check_links_vs_configs ?cfg ?links)
          = map InvalidEndpoint (filter (\<lambda>ep. CHR '':'' \<notin> set ep) (endpoints ?links))
            @ [if missing_devices ?checked \<noteq> [] then MissingDevices (sort (missing_devices ?checked))
               else NoMissingDevices,
               if missing_interfaces ?checked \<noteq> []
               then MissingInterfaces (sort (missing_interfaces ?checked))
               else NoMissingInterfaces]"
    by (rule t1 [THEN conjunct2, THEN conjunct2, THEN conjunct2, THEN conjunct2, THEN conjunct2,
          unfolded Let_def, THEN conjunct1])
  then have p5: "printed (check_links_vs_configs ?cfg ?links)
       = [InvalidEndpoint ''R1'', InvalidEndpoint ''R2'', MissingDevices [''R4''], NoMissingInterfaces]"
    unfolding c f by simp
  from p1 p2 p3 p5 show ?thesis by blast
qed

text \<open>
  Claim C10. An accepted line is split at its first \<open>-\<close> only: when the stripped line
  is \<open>a\<close>, a dash, then \<open>b\<close>, with no dash in \<open>a\<close>, the line adds exactly one pair to
  the list, the stripped \<open>a\<close> and the stripped \<open>b\<close>, whatever further dashes \<open>b\<close>
  contains.
\<close>

theorem split_first_dash:
  assumes "strip raw = a @ CHR ''-'' # b" and "CHR ''-'' \<notin> set a"
    and "\<not> startswith_hash (strip raw)"
  shows "read_line raw (links, out) = (links @ [(strip a, strip b)], out)"
  using assms
  by (simp add: read_line_def split_once_def Let_def takeWhile_until_first
      dropWhile_until_first)

theorem split_first_dash_witness:
  "read_line ''R1:Gi0-1 - R2:Gi0-2'' ([], []) = ([(''R1:Gi0'', ''1 - R2:Gi0-2'')], [])"
proof -
  have s: "strip ''R1:Gi0-1 - R2:Gi0-2'' = ''R1:Gi0'' @ CHR ''-'' # ''1 - R2:Gi0-2''"
    by (simp add: strip_def is_space_def)
  have d: "CHR ''-'' \<notin> set ''R1:Gi0''" by simp
  have h: "\<not> startswith_hash (strip ''R1:Gi0-1 - R2:Gi0-2'')"
    by (simp add: s startswith_hash_def)
  have e: "strip ''R1:Gi0'' = ''R1:Gi0''" "strip ''1 - R2:Gi0-2'' = ''1 - R2:Gi0-2''"
    by (simp_all add: strip_def is_space_def)
  show ?thesis
    using split_first_dash [OF s d h, of "[]" "[]"] by (simp add: e)
qed


section \<open>The tree generator terminates\<close>

lemma attach_children_remaining:
  "attach_children k parent level (G, remaining, nxt) = (G', remaining', nxt')
   \<Longrightarrow> remaining' = drop k remaining"
proof (induction k arbitrary: G remaining nxt)
  case 0
  then show ?case by simp
next
  case (Suc k)
  then show ?case by (cases remaining) auto
qed

lemma level_loop_nonpositive:
  "branching_factor \<le> 0 \<Longrightarrow> level_loop parents branching_factor level st = st"
  by (induction parents branching_factor level st rule: level_loop.induct) simp_all

lemma level_loop_length:
  "level_loop parents bf level (G, remaining, nxt) = (G', remaining', nxt')
   \<Longrightarrow> length remaining' \<le> length remaining"
proof (induction parents arbitrary: G remaining nxt)
  case Nil
  then show ?case by simp
next
  case (Cons p ps)
  obtain G1 r1 n1 where a: "attach_children (nat (min bf (int (length remaining)))) p level
          (G, remaining, nxt) = (G1, r1, n1)"
    by (metis prod_cases3)
  from attach_children_remaining [OF a] have "length r1 \<le> length remaining" by simp
  moreover from Cons.prems a have "level_loop ps bf level (G1, r1, n1) = (G', remaining', nxt')"
    by simp
  from Cons.IH [OF this] have "length remaining' \<le> length r1" .
  ultimately show ?case by simp
qed

lemma level_loop_consumes:
  assumes "level_loop parents bf level (G, remaining, nxt) = (G', remaining', nxt')"
    and "1 \<le> bf" and "parents \<noteq> []" and "remaining \<noteq> []"
  shows "length remaining' < length remaining"
proof -
  obtain p ps where ps: "parents = p # ps" using assms(3) by (cases parents) auto
  obtain G1 r1 n1 where a: "attach_children (nat (min bf (int (length remaining)))) p level
          (G, remaining, nxt) = (G1, r1, n1)"
    by (metis prod_cases3)
  have "0 < nat (min bf (int (length remaining)))" using assms(2,4) by (cases remaining) auto
  with attach_children_remaining [OF a] assms(4) have "length r1 < length remaining"
    by (cases remaining) auto
  moreover from assms(1) ps a have "level_loop ps bf level (G1, r1, n1) = (G', remaining', nxt')"
    by simp
  from level_loop_length [OF this] have "length remaining' \<le> length r1" .
  ultimately show ?thesis by simp
qed

lemma tree_loop_returns:
  "\<exists>G' rem cur. tree_loop bf G remaining current level = Some (G', rem, cur)
      \<and> (rem = [] \<or> cur = [])"
proof (induction "2 * length remaining + (if current = [] then 0 else (1::nat))"
    arbitrary: G remaining current level rule: less_induct)
  case less
  show ?case
  proof (cases "remaining \<noteq> [] \<and> current \<noteq> []")
    case False
    then show ?thesis by (subst tree_loop.simps) auto
  next
    case True
    obtain G1 r1 n1 where l: "level_loop current bf level (G, remaining, []) = (G1, r1, n1)"
      by (metis prod_cases3)
    have m: "2 * length r1 + (if n1 = [] then 0 else (1::nat))
        < 2 * length remaining + (if current = [] then 0 else 1)"
    proof (cases "1 \<le> bf")
      case True
      from level_loop_consumes [OF l True] \<open>remaining \<noteq> [] \<and> current \<noteq> []\<close>
      have "length r1 < length remaining" by simp
      then show ?thesis by auto
    next
      case False
      then have "level_loop current bf level (G, remaining, []) = (G, remaining, [])"
        by (simp add: level_loop_nonpositive)
      with l have "r1 = remaining" "n1 = []" by simp_all
      with True show ?thesis by simp
    qed
    from less [OF m] obtain G' rem cur where
      "tree_loop bf G1 r1 n1 (level + 1) = Some (G', rem, cur)" "rem = [] \<or> cur = []"
      by blast
    with True l show ?thesis by (subst tree_loop.simps) auto
  qed
qed

text \<open>
  Claim C8. For every list of node ids and every integer branching factor, also zero
  and negative ones, the tree generator returns a graph: its \<open>while\<close> loop, started in
  any state, comes to an end, and in the state it ends in the pool of unassigned ids or
  the frontier of current-level parents is empty.
\<close>

theorem create_tree_topology_terminates:
  "(\<exists>G. create_tree_topology nodes branching_factor = Some G)
   \<and> (\<exists>G' rem cur. tree_loop branching_factor G remaining_nodes current_level_nodes level
          = Some (G', rem, cur) \<and> (rem = [] \<or> cur = []))"
proof
  show "\<exists>G. create_tree_topology nodes branching_factor = Some G"
  proof (cases nodes)
    case Nil
    then show ?thesis by (simp add: create_tree_topology_def)
  next
    case (Cons r rest)
    from tree_loop_returns obtain G' rem cur where
      "tree_loop branching_factor
         (add_node r [(''role'', AStr ''root''), (''device_type'', AStr ''switch''),
                      (''level'', AInt 0)] empty_graph) rest [r] 1 = Some (G', rem, cur)"
      by blast
    with Cons show ?thesis by (simp add: create_tree_topology_def)
  qed
  show "\<exists>G' rem cur. tree_loop branching_factor G remaining_nodes current_level_nodes level
          = Some (G', rem, cur) \<and> (rem = [] \<or> cur = [])"
    by (rule tree_loop_returns)
qed



section \<open>Properties of the graph operations\<close>

text \<open>An edge as the set of its two ends, and the list of the edges of a graph without their
  attributes.\<close>

definition upair :: "string \<times> string \<Rightarrow> string set" where
  "upair e = {fst e, snd e}"

definition pairs :: "graph \<Rightarrow> (string \<times> string) list" where
  "pairs G = map fst (gedges G)"

lemma joins_upair: "joins u v e \<longleftrightarrow> upair e = {u, v}"
proof (cases e)
  case (Pair a b)
  have "{a, b} = {u, v} \<longleftrightarrow> (a = u \<and> b = v) \<or> (a = v \<and> b = u)"
    by (rule doubleton_eq_iff)
  then show ?thesis by (simp add: joins_def upair_def Pair)
qed

lemma has_edge_iff: "has_edge G u v \<longleftrightarrow> {u, v} \<in> upair ` set (pairs G)"
proof
  assume "has_edge G u v"
  then obtain e where e: "e \<in> set (gedges G)" "upair (fst e) = {u, v}"
    unfolding has_edge_def joins_upair by blast
  then have "fst e \<in> set (pairs G)" by (simp add: pairs_def)
  with e(2) show "{u, v} \<in> upair ` set (pairs G)" by (metis imageI)
next
  assume "{u, v} \<in> upair ` set (pairs G)"
  then obtain p where p: "p \<in> set (pairs G)" "upair p = {u, v}" by (metis imageE)
  then obtain e where "e \<in> set (gedges G)" "fst e = p" unfolding pairs_def by auto
  with p(2) show "has_edge G u v" unfolding has_edge_def joins_upair by blast
qed

lemma gedges_ensure_node [simp]: "gedges (ensure_node n G) = gedges G"
  by (simp add: ensure_node_def)

lemma gedges_add_node [simp]: "gedges (add_node n a G) = gedges G"
  by (simp add: add_node_def)

lemma pairs_ensure_node [simp]: "pairs (ensure_node n G) = pairs G"
  by (simp add: pairs_def)

lemma pairs_add_node [simp]: "pairs (add_node n a G) = pairs G"
  by (simp add: pairs_def)


lemma map_fst_update: "map fst (map (\<lambda>(m, d). if m = n then (m, f d) else (m, d)) xs) = map fst xs"
  by (induction xs) auto

lemma nodes_add_node:
  "nodes_of (add_node n a G) = (if n \<in> set (nodes_of G) then nodes_of G else nodes_of G @ [n])"
  using map_fst_update [of n "\<lambda>d. dict_update d a" "gnodes G"]
  by (simp add: add_node_def nodes_of_def has_node_def del: map_map)

lemma has_edge_ensure_node [simp]: "has_edge (ensure_node n G) u v = has_edge G u v"
  by (simp add: has_edge_def)

lemma has_edge_add_node [simp]: "has_edge (add_node n a G) u v = has_edge G u v"
  by (simp add: has_edge_def)

lemma map_fst_update_edges:
  "map fst (map (\<lambda>(e, d). if P e then (e, f d) else (e, d)) xs) = map fst xs"
  by (induction xs) auto

lemma pairs_add_edge:
  "pairs (add_edge u v a G) = (if has_edge G u v then pairs G else pairs G @ [(u, v)])"
  using map_fst_update_edges [of "joins u v" "\<lambda>d. dict_update d a" "gedges G"]
  by (simp add: add_edge_def Let_def pairs_def del: map_map)

lemma gedges_add_edge_new:
  "\<not> has_edge G u v \<Longrightarrow> gedges (add_edge u v a G) = gedges G @ [((u, v), dict_update [] a)]"
  by (simp add: add_edge_def Let_def)


lemma gnodes_add_edge_present:
  "u \<in> set (nodes_of G) \<Longrightarrow> v \<in> set (nodes_of G) \<Longrightarrow> gnodes (add_edge u v a G) = gnodes G"
  by (simp add: add_edge_def Let_def ensure_node_def has_node_def)

lemma nodes_add_edge_present:
  "u \<in> set (nodes_of G) \<Longrightarrow> v \<in> set (nodes_of G) \<Longrightarrow> nodes_of (add_edge u v a G) = nodes_of G"
  using gnodes_add_edge_present [of u G v a] unfolding nodes_of_def by metis

lemma has_edge_add_edge:
  "has_edge (add_edge u v a G) x y \<longleftrightarrow> has_edge G x y \<or> {x, y} = {u, v}"
proof (cases "has_edge G u v")
  case True
  then have "pairs (add_edge u v a G) = pairs G" by (simp add: pairs_add_edge)
  then have a: "has_edge (add_edge u v a G) x y = has_edge G x y" by (simp only: has_edge_iff)
  have b: "{x, y} = {u, v} \<Longrightarrow> has_edge G x y" using True by (simp only: has_edge_iff)
  show ?thesis using a b by blast
next
  case False
  then have "pairs (add_edge u v a G) = pairs G @ [(u, v)]" by (simp add: pairs_add_edge)
  then have "upair ` set (pairs (add_edge u v a G)) = insert {u, v} (upair ` set (pairs G))"
    by (simp add: upair_def)
  then have "has_edge (add_edge u v a G) x y = ({x, y} \<in> insert {u, v} (upair ` set (pairs G)))"
    by (simp only: has_edge_iff)
  also have "\<dots> = (has_edge G x y \<or> {x, y} = {u, v})"
    unfolding has_edge_iff insert_iff by blast
  finally show ?thesis .
qed

lemma fold_add_edge_fresh:
  assumes "distinct (map upair ps)" and "\<forall>p\<in>set ps. \<not> has_edge G (fst p) (snd p)"
  shows "gedges (fold (\<lambda>(u, v). add_edge u v a) ps G)
           = gedges G @ map (\<lambda>p. (p, dict_update [] a)) ps"
  using assms
proof (induction ps arbitrary: G)
  case Nil
  then show ?case by simp
next
  case (Cons p ps)
  obtain u v where p: "p = (u, v)" by (cases p)
  have new: "\<not> has_edge G u v" using Cons.prems(2) p by simp
  have d: "distinct (map upair ps)" and n: "upair p \<notin> upair ` set ps"
    using Cons.prems(1) by simp_all
  have "\<forall>q\<in>set ps. \<not> has_edge (add_edge u v a G) (fst q) (snd q)"
  proof
    fix q assume q: "q \<in> set ps"
    then have "\<not> has_edge G (fst q) (snd q)" using Cons.prems(2) by simp
    moreover have "{fst q, snd q} \<noteq> {u, v}"
    proof
      assume "{fst q, snd q} = {u, v}"
      then have "upair q = upair p" by (simp add: upair_def p)
      with q n show False by (metis imageI)
    qed
    ultimately show "\<not> has_edge (add_edge u v a G) (fst q) (snd q)"
      by (simp add: has_edge_add_edge)
  qed
  from Cons.IH [OF d this]
  have "gedges (fold (\<lambda>(u, v). add_edge u v a) ps (add_edge u v a G))
           = gedges (add_edge u v a G) @ map (\<lambda>p. (p, dict_update [] a)) ps" .
  then show ?case using new p by (simp add: gedges_add_edge_new)
qed

lemma fold_add_edge_nodes:
  assumes "\<forall>p\<in>set ps. fst p \<in> set (nodes_of G) \<and> snd p \<in> set (nodes_of G)"
  shows "gnodes (fold (\<lambda>(u, v). add_edge u v a) ps G) = gnodes G"
  using assms
proof (induction ps arbitrary: G)
  case Nil
  then show ?case by simp
next
  case (Cons p ps)
  obtain u v where p: "p = (u, v)" by (cases p)
  from Cons.prems p have g: "gnodes (add_edge u v a G) = gnodes G"
    by (simp add: gnodes_add_edge_present)
  then have "nodes_of (add_edge u v a G) = nodes_of G" by (simp add: nodes_of_def)
  with Cons.IH [of "add_edge u v a G"] Cons.prems g p show ?case by simp
qed

lemma fold_add_node_nodes:
  "distinct ns \<Longrightarrow> set ns \<inter> set (nodes_of G) = {} \<Longrightarrow>
     nodes_of (fold (\<lambda>n. add_node n (a n)) ns G) = nodes_of G @ ns"
proof (induction ns arbitrary: G)
  case Nil
  then show ?case by simp
next
  case (Cons n ns)
  then have e: "nodes_of (add_node n (a n) G) = nodes_of G @ [n]" by (simp add: nodes_add_node)
  have d: "distinct ns" using Cons.prems(1) by simp
  have "set ns \<inter> set (nodes_of (add_node n (a n) G)) = {}"
    unfolding e using Cons.prems by auto
  from Cons.IH [OF d this] e show ?case by simp
qed

lemma fold_add_node_gedges [simp]:
  "gedges (fold (\<lambda>n. add_node n (a n)) ns G) = gedges G"
  by (induction ns arbitrary: G) auto

lemma neighbors_list:
  "v \<in> set (concat (map (\<lambda>(e, d). if fst e = u then [snd e] else if snd e = u then [fst e] else []) es))
     \<longleftrightarrow> (u, v) \<in> set (map fst es) \<or> (v, u) \<in> set (map fst es)"
proof (induction es)
  case Nil
  then show ?case by simp
next
  case (Cons x es)
  obtain a b d where x: "x = ((a, b), d)" by (metis surj_pair)
  have "v \<in> set (if a = u then [b] else if b = u then [a] else []) \<longleftrightarrow> (u, v) = (a, b) \<or> (v, u) = (a, b)"
    by (simp split: if_splits) blast
  then show ?case using Cons.IH by (simp add: x) blast
qed

lemma neighbors_iff:
  "v \<in> set (neighbors G u) \<longleftrightarrow> (u, v) \<in> set (pairs G) \<or> (v, u) \<in> set (pairs G)"
  unfolding neighbors_def pairs_def by (rule neighbors_list)

lemma degree_list:
  "sum_list (map (\<lambda>(e, d). (if fst e = v then 1 else 0) + (if snd e = v then 1 else 0)) es)
     = length (filter (\<lambda>e. fst e = v) (map fst es)) + length (filter (\<lambda>e. snd e = v) (map fst es))"
  by (induction es) (auto simp: case_prod_beta)

lemma degree_pairs:
  "degree G v = length (filter (\<lambda>e. fst e = v) (pairs G)) + length (filter (\<lambda>e. snd e = v) (pairs G))"
  unfolding degree_def pairs_def by (rule degree_list)



section \<open>The search reaches exactly the nodes connected to its start\<close>

definition adj :: "graph \<Rightarrow> (string \<times> string) set" where
  "adj G = {(u, v). v \<in> set (neighbors G u)}"

definition wf_graph :: "graph \<Rightarrow> bool" where
  "wf_graph G \<longleftrightarrow> distinct (nodes_of G)
     \<and> (\<forall>p\<in>set (pairs G). fst p \<in> set (nodes_of G) \<and> snd p \<in> set (nodes_of G))"

lemma visit_distinct:
  "visit ws (seen, nxt) = (seen', nxt') \<Longrightarrow> distinct seen \<Longrightarrow> distinct seen'"
proof (induction ws arbitrary: seen nxt)
  case Nil
  then show ?case by (simp add: visit_def)
next
  case (Cons w ws)
  show ?case
  proof (cases "w \<in> set seen")
    case True
    with Cons.prems have "visit ws (seen, nxt) = (seen', nxt')" by (simp add: visit_def)
    from Cons.IH [OF this Cons.prems(2)] show ?thesis .
  next
    case False
    with Cons.prems have v: "visit ws (seen @ [w], nxt @ [w]) = (seen', nxt')"
      by (simp add: visit_def)
    have "distinct (seen @ [w])" using False Cons.prems(2) by simp
    from Cons.IH [OF v this] show ?thesis .
  qed
qed

lemma expand_distinct_aux:
  "fold (\<lambda>v. visit (neighbors G v)) level (seen, nxt) = (seen', nxt') \<Longrightarrow> distinct seen
     \<Longrightarrow> distinct seen'"
proof (induction level arbitrary: seen nxt)
  case Nil
  then show ?case by simp
next
  case (Cons v level)
  obtain s1 n1 where v: "visit (neighbors G v) (seen, nxt) = (s1, n1)" by (metis surj_pair)
  with Cons.prems have f: "fold (\<lambda>v. visit (neighbors G v)) level (s1, n1) = (seen', nxt')" by simp
  from Cons.IH [OF f visit_distinct [OF v Cons.prems(2)]] show ?case .
qed

lemma expand_distinct:
  "expand G level seen = (seen', nxt) \<Longrightarrow> distinct seen \<Longrightarrow> distinct seen'"
  unfolding expand_def by (rule expand_distinct_aux)

lemma plain_bfs_distinct: "distinct seen \<Longrightarrow> distinct (plain_bfs G seen level)"
proof (induction G seen level rule: plain_bfs.induct)
  case (1 G seen thislevel)
  show ?case
  proof (cases "thislevel = []")
    case True
    then show ?thesis using "1.prems" by (simp add: plain_bfs.simps)
  next
    case False
    obtain s1 n1 where e: "expand G thislevel seen = (s1, n1)" by (metis surj_pair)
    from "1.IH" [OF False e [symmetric] expand_distinct [OF e "1.prems"]]
    have "distinct (plain_bfs G s1 n1)" .
    then show ?thesis using False e by (subst plain_bfs.simps) simp
  qed
qed

lemma plain_bfs_closed:
  assumes "set level \<subseteq> set seen"
    and "\<forall>u\<in>set seen - set level. set (neighbors G u) \<subseteq> set seen"
  shows "set seen \<subseteq> set (plain_bfs G seen level)
     \<and> (\<forall>u\<in>set (plain_bfs G seen level). set (neighbors G u) \<subseteq> set (plain_bfs G seen level))"
  using assms
proof (induction G seen level rule: plain_bfs.induct)
  case (1 G seen thislevel)
  show ?case
  proof (cases "thislevel = []")
    case True
    then show ?thesis using "1.prems" by (simp add: plain_bfs.simps)
  next
    case False
    obtain s1 n1 where e: "expand G thislevel seen = (s1, n1)" by (metis surj_pair)
    from expand_sets [OF e] have s1: "set s1 = set seen \<union> (\<Union>v\<in>set thislevel. set (neighbors G v))"
      and n1: "set n1 = (\<Union>v\<in>set thislevel. set (neighbors G v)) - set seen" by simp_all
    have a: "set n1 \<subseteq> set s1" using s1 n1 by blast
    have b: "\<forall>u\<in>set s1 - set n1. set (neighbors G u) \<subseteq> set s1"
    proof
      fix u assume "u \<in> set s1 - set n1"
      then have u: "u \<in> set seen" using s1 n1 by blast
      show "set (neighbors G u) \<subseteq> set s1"
      proof (cases "u \<in> set thislevel")
        case True
        then show ?thesis using s1 by blast
      next
        case False
        with u "1.prems"(2) have "set (neighbors G u) \<subseteq> set seen" by blast
        then show ?thesis using s1 by blast
      qed
    qed
    from "1.IH" [OF False e [symmetric] a b]
    have "set s1 \<subseteq> set (plain_bfs G s1 n1)
      \<and> (\<forall>u\<in>set (plain_bfs G s1 n1). set (neighbors G u) \<subseteq> set (plain_bfs G s1 n1))" .
    moreover have "plain_bfs G seen thislevel = plain_bfs G s1 n1"
      using False e by (subst plain_bfs.simps) simp
    moreover have "set seen \<subseteq> set s1" using s1 by blast
    ultimately show ?thesis by auto
  qed
qed

lemma plain_bfs_reach:
  "set (plain_bfs G seen level) \<subseteq> set seen \<union> (adj G)\<^sup>* `` set level"
proof (induction G seen level rule: plain_bfs.induct)
  case (1 G seen thislevel)
  show ?case
  proof (cases "thislevel = []")
    case True
    then show ?thesis by (simp add: plain_bfs.simps)
  next
    case False
    obtain s1 n1 where e: "expand G thislevel seen = (s1, n1)" by (metis surj_pair)
    from expand_sets [OF e] have s1: "set s1 = set seen \<union> (\<Union>v\<in>set thislevel. set (neighbors G v))"
      and n1: "set n1 = (\<Union>v\<in>set thislevel. set (neighbors G v)) - set seen" by simp_all
    have nb: "(\<Union>v\<in>set thislevel. set (neighbors G v)) \<subseteq> (adj G)\<^sup>* `` set thislevel"
    proof
      fix x assume "x \<in> (\<Union>v\<in>set thislevel. set (neighbors G v))"
      then obtain v where v: "v \<in> set thislevel" "x \<in> set (neighbors G v)" by blast
      then have "(v, x) \<in> (adj G)\<^sup>*" by (simp add: adj_def r_into_rtrancl)
      with v(1) show "x \<in> (adj G)\<^sup>* `` set thislevel" by (rule ImageI [rotated])
    qed
    have "(adj G)\<^sup>* `` set n1 \<subseteq> (adj G)\<^sup>* `` set thislevel"
    proof
      fix x assume "x \<in> (adj G)\<^sup>* `` set n1"
      then obtain w where w: "w \<in> set n1" "(w, x) \<in> (adj G)\<^sup>*" by blast
      from w(1) n1 obtain v where v: "v \<in> set thislevel" "w \<in> set (neighbors G v)" by blast
      then have "(v, w) \<in> adj G" by (simp add: adj_def)
      from this w(2) have "(v, x) \<in> (adj G)\<^sup>*" by (rule converse_rtrancl_into_rtrancl)
      with v(1) show "x \<in> (adj G)\<^sup>* `` set thislevel" by blast
    qed
    then have r: "(adj G)\<^sup>* `` set n1 \<subseteq> set seen \<union> (adj G)\<^sup>* `` set thislevel" by blast
    from "1.IH" [OF False e [symmetric]]
    have i: "set (plain_bfs G s1 n1) \<subseteq> set s1 \<union> (adj G)\<^sup>* `` set n1" .
    have p: "plain_bfs G seen thislevel = plain_bfs G s1 n1"
      using False e by (subst plain_bfs.simps) simp
    have "set s1 \<subseteq> set seen \<union> (adj G)\<^sup>* `` set thislevel" unfolding s1 using nb by blast
    with r i show ?thesis unfolding p by blast
  qed
qed

lemma plain_bfs_component: "set (plain_bfs G [s] [s]) = (adj G)\<^sup>* `` {s}"
proof
  have "set [s] \<subseteq> (adj G)\<^sup>* `` {s}" by simp
  moreover have "(adj G)\<^sup>* `` set [s] = (adj G)\<^sup>* `` {s}" by simp
  ultimately show "set (plain_bfs G [s] [s]) \<subseteq> (adj G)\<^sup>* `` {s}"
    using plain_bfs_reach [of G "[s]" "[s]"] by (metis Un_absorb1 subset_trans sup.cobounded1 sup.orderE)
next
  have c: "set [s] \<subseteq> set (plain_bfs G [s] [s])
     \<and> (\<forall>u\<in>set (plain_bfs G [s] [s]). set (neighbors G u) \<subseteq> set (plain_bfs G [s] [s]))"
    by (rule plain_bfs_closed) simp_all
  show "(adj G)\<^sup>* `` {s} \<subseteq> set (plain_bfs G [s] [s])"
  proof
    fix x assume "x \<in> (adj G)\<^sup>* `` {s}"
    then have "(s, x) \<in> (adj G)\<^sup>*" by simp
    then show "x \<in> set (plain_bfs G [s] [s])"
    proof (induction rule: rtrancl_induct)
      case base
      then show ?case using c by simp
    next
      case (step y z)
      then have "z \<in> set (neighbors G y)" by (simp add: adj_def)
      with step.IH c show ?case by blast
    qed
  qed
qed

lemma adj_in_nodes:
  assumes "wf_graph G" and "(u, v) \<in> adj G"
  shows "u \<in> set (nodes_of G) \<and> v \<in> set (nodes_of G)"
proof -
  from assms(2) have "(u, v) \<in> set (pairs G) \<or> (v, u) \<in> set (pairs G)"
    by (simp add: adj_def neighbors_iff)
  then show ?thesis
  proof
    assume "(u, v) \<in> set (pairs G)"
    with assms(1) have "fst (u, v) \<in> set (nodes_of G) \<and> snd (u, v) \<in> set (nodes_of G)"
      unfolding wf_graph_def by blast
    then show ?thesis by simp
  next
    assume "(v, u) \<in> set (pairs G)"
    with assms(1) have "fst (v, u) \<in> set (nodes_of G) \<and> snd (v, u) \<in> set (nodes_of G)"
      unfolding wf_graph_def by blast
    then show ?thesis by simp
  qed
qed

lemma reach_in_nodes:
  assumes "wf_graph G" and "s \<in> set (nodes_of G)" and "(s, v) \<in> (adj G)\<^sup>*"
  shows "v \<in> set (nodes_of G)"
  using assms(3,2)
proof (induction rule: rtrancl_induct)
  case base
  then show ?case .
next
  case (step y z)
  with adj_in_nodes [OF assms(1)] show ?case by blast
qed

lemma is_connected_iff:
  assumes "wf_graph G" and "nodes_of G = s # rest"
  shows "is_connected G = Inr (\<forall>v\<in>set (nodes_of G). (s, v) \<in> (adj G)\<^sup>*)"
proof -
  let ?B = "plain_bfs G [s] [s]"
  have sn: "s \<in> set (nodes_of G)" using assms(2) by simp
  have sub: "set ?B \<subseteq> set (nodes_of G)"
    unfolding plain_bfs_component using reach_in_nodes [OF assms(1) sn] by auto
  have dB: "distinct ?B" by (rule plain_bfs_distinct) simp
  have dN: "distinct (nodes_of G)" using assms(1) by (simp add: wf_graph_def)
  have "length ?B = number_of_nodes G \<longleftrightarrow> card (set ?B) = card (set (nodes_of G))"
    using distinct_card [OF dB] distinct_card [OF dN]
    by (simp add: number_of_nodes_def nodes_of_def)
  also have "\<dots> \<longleftrightarrow> set ?B = set (nodes_of G)"
    using sub by (metis card_subset_eq List.finite_set)
  also have "\<dots> \<longleftrightarrow> (\<forall>v\<in>set (nodes_of G). (s, v) \<in> (adj G)\<^sup>*)"
    using sub unfolding plain_bfs_component by auto
  finally show ?thesis using assms(2) by (simp add: is_connected_def)
qed



section \<open>The ring generator\<close>

definition ring_pairs :: "string list \<Rightarrow> (string \<times> string) list" where
  "ring_pairs xs = map (\<lambda>i. (xs ! i, xs ! ((i + 1) mod length xs))) [0..<length xs]"

lemma succ_mod: "j < n \<Longrightarrow> (j + 1) mod n = (if j + 1 = n then 0 else j + 1)" for j n :: nat
  by auto

lemma ring_step_inj:
  fixes i j n :: nat
  assumes "3 \<le> n" "i < n" "j < n"
    and "i = (j + 1) mod n" "(i + 1) mod n = j"
  shows False
proof (cases "j + 1 = n")
  case True
  with assms(3,4) have "i = 0" by simp
  with assms(1,5) have "j = 1" by simp
  with True assms(1) show False by simp
next
  case False
  with assms(3,4) have i: "i = j + 1" by simp
  show False
  proof (cases "i + 1 = n")
    case True
    with assms(5) have "j = 0" by simp
    with i True assms(1) show False by simp
  next
    case False
    with assms(2,5) have "j = i + 1" by simp
    with i show False by simp
  qed
qed

lemma ring_pairs_distinct:
  assumes "3 \<le> length xs" and "distinct xs"
  shows "distinct (map upair (ring_pairs xs))"
proof -
  let ?n = "length xs"
  let ?f = "\<lambda>i. upair (xs ! i, xs ! ((i + 1) mod ?n))"
  have "inj_on ?f (set [0..<?n])"
  proof (rule inj_onI)
    fix i j assume i: "i \<in> set [0..<?n]" and j: "j \<in> set [0..<?n]" and e: "?f i = ?f j"
    then have il: "i < ?n" and jl: "j < ?n" by simp_all
    have "0 < ?n" using assms(1) by linarith
    then have ml: "(i + 1) mod ?n < ?n" "(j + 1) mod ?n < ?n" by (rule mod_less_divisor)+
    from e have "{xs ! i, xs ! ((i + 1) mod ?n)} = {xs ! j, xs ! ((j + 1) mod ?n)}"
      by (simp add: upair_def)
    then have "(xs ! i = xs ! j \<and> xs ! ((i + 1) mod ?n) = xs ! ((j + 1) mod ?n))
        \<or> (xs ! i = xs ! ((j + 1) mod ?n) \<and> xs ! ((i + 1) mod ?n) = xs ! j)"
      by (simp only: doubleton_eq_iff)
    then show "i = j"
    proof
      assume "xs ! i = xs ! j \<and> xs ! ((i + 1) mod ?n) = xs ! ((j + 1) mod ?n)"
      then show ?thesis using assms(2) il jl by (simp add: nth_eq_iff_index_eq)
    next
      assume "xs ! i = xs ! ((j + 1) mod ?n) \<and> xs ! ((i + 1) mod ?n) = xs ! j"
      then have h1: "xs ! i = xs ! ((j + 1) mod ?n)" and h2: "xs ! ((i + 1) mod ?n) = xs ! j"
        by blast+
      from h1 have "i = (j + 1) mod ?n"
        by (simp only: nth_eq_iff_index_eq [OF assms(2) il ml(2)])
      moreover from h2 have "(i + 1) mod ?n = j"
        by (simp only: nth_eq_iff_index_eq [OF assms(2) ml(1) jl])
      ultimately show ?thesis using ring_step_inj [OF assms(1) il jl] by blast
    qed
  qed
  then have "distinct (map ?f [0..<?n])" by (simp add: distinct_map)
  then show ?thesis by (simp add: ring_pairs_def comp_def)
qed

lemma ring_pairs_in:
  assumes "0 < length xs"
  shows "\<forall>p\<in>set (ring_pairs xs). fst p \<in> set xs \<and> snd p \<in> set xs"
proof
  fix p assume "p \<in> set (ring_pairs xs)"
  then obtain i where i: "i < length xs" "p = (xs ! i, xs ! ((i + 1) mod length xs))"
    unfolding ring_pairs_def by auto
  have "(i + 1) mod length xs < length xs" using assms by (rule mod_less_divisor)
  with i show "fst p \<in> set xs \<and> snd p \<in> set xs" by simp
qed

lemma gedges_empty [simp]: "gedges empty_graph = []" "gnodes empty_graph = []"
  by (simp_all add: empty_graph_def)

lemma ring_graph:
  assumes "3 \<le> length xs" and "distinct xs"
  shows "nodes_of (create_ring_topology xs) = xs"
    and "pairs (create_ring_topology xs) = ring_pairs xs"
proof -
  let ?a = "link 1000 1500 ''serial''"
  let ?G0 = "fold (\<lambda>node. add_node node [(''device_type'', AStr ''router'')]) xs empty_graph"
  have n0: "nodes_of ?G0 = xs"
    using fold_add_node_nodes [of xs empty_graph "\<lambda>_. [(''device_type'', AStr ''router'')]"] assms(2)
    by (simp add: nodes_of_def)
  have e0: "gedges ?G0 = []" by simp
  have f: "fold (\<lambda>i. add_edge (xs ! i) (xs ! ((i + 1) mod length xs)) ?a) [0..<length xs] ?G0
      = fold (\<lambda>(u, v). add_edge u v ?a) (ring_pairs xs) ?G0"
    by (simp add: ring_pairs_def fold_map comp_def)
  have c: "create_ring_topology xs = fold (\<lambda>(u, v). add_edge u v ?a) (ring_pairs xs) ?G0"
    using assms(1) f by (simp add: create_ring_topology_def Let_def)
  have fresh: "\<forall>p\<in>set (ring_pairs xs). \<not> has_edge ?G0 (fst p) (snd p)"
    by (simp add: has_edge_def)
  have inn: "\<forall>p\<in>set (ring_pairs xs). fst p \<in> set (nodes_of ?G0) \<and> snd p \<in> set (nodes_of ?G0)"
    unfolding n0 by (rule ring_pairs_in) (use assms(1) in linarith)
  from fold_add_edge_nodes [OF inn, of ?a] n0 show "nodes_of (create_ring_topology xs) = xs"
    unfolding c by (simp add: nodes_of_def)
  from fold_add_edge_fresh [OF ring_pairs_distinct [OF assms] fresh, of ?a] e0
  show "pairs (create_ring_topology xs) = ring_pairs xs"
    unfolding c by (simp add: pairs_def comp_def)
qed

lemma count_index: "k < n \<Longrightarrow> length (filter (\<lambda>i. i = k) [0..<n]) = 1" for k n :: nat
  by (induction n) auto

lemma pred_mod:
  fixes i k n :: nat
  assumes "3 \<le> n" "i < n" "k < n"
  shows "(i + 1) mod n = k \<longleftrightarrow> i = (k + n - 1) mod n"
proof -
  have a: "(i + 1) mod n = (if i + 1 = n then 0 else i + 1)" by (rule succ_mod [OF assms(2)])
  have b: "(k + n - 1) mod n = (if k = 0 then n - 1 else k - 1)"
  proof (cases "k = 0")
    case True
    then show ?thesis using assms(1) by simp
  next
    case False
    then have "k + n - 1 = (k - 1) + n" by simp
    then have "(k + n - 1) mod n = (k - 1) mod n" by (simp only: mod_add_self2)
    with assms(3) False show ?thesis by simp
  qed
  show ?thesis unfolding a b using assms by (auto split: if_splits)
qed

lemma ring_degree:
  assumes "3 \<le> length xs" and "distinct xs" and "v \<in> set xs"
  shows "degree (create_ring_topology xs) v = 2"
proof -
  let ?n = "length xs"
  from assms(3) obtain k where k: "k < ?n" "v = xs ! k" by (metis in_set_conv_nth)
  have a: "filter (\<lambda>e. fst e = v) (ring_pairs xs)
      = map (\<lambda>i. (xs ! i, xs ! ((i + 1) mod ?n))) (filter (\<lambda>i. i = k) [0..<?n])"
    unfolding ring_pairs_def filter_map comp_def
    by (rule arg_cong [where f = "map _"], rule filter_cong)
       (simp_all add: k nth_eq_iff_index_eq [OF assms(2)])
  have b: "filter (\<lambda>e. snd e = v) (ring_pairs xs)
      = map (\<lambda>i. (xs ! i, xs ! ((i + 1) mod ?n))) (filter (\<lambda>i. i = (k + ?n - 1) mod ?n) [0..<?n])"
    unfolding ring_pairs_def filter_map comp_def
  proof (rule arg_cong [where f = "map _"], rule filter_cong)
    fix i assume "i \<in> set [0..<?n]"
    then have i: "i < ?n" by simp
    have "0 < ?n" using assms(1) by linarith
    then have "(i + 1) mod ?n < ?n" by (rule mod_less_divisor)
    then have "xs ! ((i + 1) mod ?n) = xs ! k \<longleftrightarrow> (i + 1) mod ?n = k"
      using k(1) by (simp add: nth_eq_iff_index_eq [OF assms(2)])
    also have "\<dots> \<longleftrightarrow> i = (k + ?n - 1) mod ?n" by (rule pred_mod [OF assms(1) i k(1)])
    finally show "(snd (xs ! i, xs ! ((i + 1) mod ?n)) = v) = (i = (k + ?n - 1) mod ?n)"
      by (simp add: k)
  qed simp
  have "0 < ?n" using assms(1) by linarith
  then have kk: "(k + ?n - 1) mod ?n < ?n" by (rule mod_less_divisor)
  have c1: "length (filter (\<lambda>i. i = k) [0..<?n]) = 1" by (rule count_index [OF k(1)])
  have c2: "length (filter (\<lambda>i. i = (k + ?n - 1) mod ?n) [0..<?n]) = 1"
    by (rule count_index [OF kk])
  show ?thesis
    unfolding degree_pairs ring_graph(2) [OF assms(1,2)] a b length_map c1 c2 by simp
qed

lemma ring_path:
  assumes "3 \<le> length xs" and "distinct xs" and "k < length xs"
  shows "(xs ! 0, xs ! k) \<in> (adj (create_ring_topology xs))\<^sup>*"
  using assms(3)
proof (induction k)
  case 0
  then show ?case by simp
next
  case (Suc k)
  then have k: "k < length xs" by simp
  have "(xs ! k, xs ! ((k + 1) mod length xs)) \<in> set (ring_pairs xs)"
    unfolding ring_pairs_def using k by simp
  moreover have "(k + 1) mod length xs = Suc k" using Suc.prems by simp
  ultimately have "(xs ! k, xs ! Suc k) \<in> set (pairs (create_ring_topology xs))"
    by (simp add: ring_graph(2) [OF assms(1,2)])
  then have "(xs ! k, xs ! Suc k) \<in> adj (create_ring_topology xs)"
    by (simp add: adj_def neighbors_iff)
  with Suc.IH [OF k] show ?case by (rule rtrancl_into_rtrancl)
qed

lemma ring_wf:
  assumes "3 \<le> length xs" and "distinct xs"
  shows "wf_graph (create_ring_topology xs)"
proof -
  have "0 < length xs" using assms(1) by linarith
  from ring_pairs_in [OF this] assms(2) show ?thesis
    unfolding wf_graph_def ring_graph [OF assms] by simp
qed

lemma ring_connected:
  assumes "3 \<le> length xs" and "distinct xs"
  shows "is_connected (create_ring_topology xs) = Inr True"
proof -
  from assms(1) obtain s rest where xs: "xs = s # rest" by (cases xs) auto
  then have s: "s = xs ! 0" by simp
  have n: "nodes_of (create_ring_topology xs) = s # rest"
    using ring_graph(1) [OF assms] xs by simp
  have "\<forall>v\<in>set (nodes_of (create_ring_topology xs)). (s, v) \<in> (adj (create_ring_topology xs))\<^sup>*"
    unfolding ring_graph(1) [OF assms] s
    using ring_path [OF assms] by (metis in_set_conv_nth)
  with is_connected_iff [OF ring_wf [OF assms] n] show ?thesis by simp
qed

text \<open>
  Claim C4. For a list of at least three distinct node ids the ring generator makes a
  graph on exactly these nodes, with as many edges as nodes, in which every node has
  degree 2, and which is connected. For a list of fewer than three ids it returns the
  empty graph.
\<close>

theorem ring_topology_shape:
  "(length nodes < 3 \<longrightarrow> create_ring_topology nodes = empty_graph)
   \<and> (3 \<le> length nodes \<and> distinct nodes \<longrightarrow>
        nodes_of (create_ring_topology nodes) = nodes
        \<and> number_of_edges (create_ring_topology nodes) = length nodes
        \<and> (\<forall>v\<in>set (nodes_of (create_ring_topology nodes)). degree (create_ring_topology nodes) v = 2)
        \<and> is_connected (create_ring_topology nodes) = Inr True)"
proof (intro conjI impI)
  show "create_ring_topology nodes = empty_graph" if "length nodes < 3"
    using that by (simp add: create_ring_topology_def)
next
  assume a: "3 \<le> length nodes \<and> distinct nodes"
  then have l: "3 \<le> length nodes" and d: "distinct nodes" by simp_all
  show "nodes_of (create_ring_topology nodes) = nodes" by (rule ring_graph(1) [OF l d])
  have "length (pairs (create_ring_topology nodes)) = length nodes"
    by (simp add: ring_graph(2) [OF l d] ring_pairs_def)
  then show "number_of_edges (create_ring_topology nodes) = length nodes"
    by (simp add: number_of_edges_def pairs_def)
  show "\<forall>v\<in>set (nodes_of (create_ring_topology nodes)). degree (create_ring_topology nodes) v = 2"
    unfolding ring_graph(1) [OF l d] using ring_degree [OF l d] by blast
  show "is_connected (create_ring_topology nodes) = Inr True" by (rule ring_connected [OF l d])
qed


theorem ring_topology_shape_witness:
  "create_ring_topology [''R1'', ''R2''] = empty_graph
   \<and> number_of_edges (create_ring_topology [''R1'', ''R2'', ''R3'', ''R4'']) = 4
   \<and> degree (create_ring_topology [''R1'', ''R2'', ''R3'', ''R4'']) ''R3'' = 2
   \<and> is_connected (create_ring_topology [''R1'', ''R2'', ''R3'', ''R4'']) = Inr True"
proof -
  have h1: "length [''R1'', ''R2''] < 3" by simp
  have h2: "3 \<le> length [''R1'', ''R2'', ''R3'', ''R4''] \<and> distinct [''R1'', ''R2'', ''R3'', ''R4'']"
    by simp
  from ring_topology_shape [of "[''R1'', ''R2'']"] h1
  have a: "create_ring_topology [''R1'', ''R2''] = empty_graph" by blast
  from ring_topology_shape [of "[''R1'', ''R2'', ''R3'', ''R4'']"] h2
  have b: "nodes_of (create_ring_topology [''R1'', ''R2'', ''R3'', ''R4'']) = [''R1'', ''R2'', ''R3'', ''R4'']
        \<and> number_of_edges (create_ring_topology [''R1'', ''R2'', ''R3'', ''R4''])
            = length [''R1'', ''R2'', ''R3'', ''R4'']
        \<and> (\<forall>v\<in>set (nodes_of (create_ring_topology [''R1'', ''R2'', ''R3'', ''R4''])).
              degree (create_ring_topology [''R1'', ''R2'', ''R3'', ''R4'']) v = 2)
        \<and> is_connected (create_ring_topology [''R1'', ''R2'', ''R3'', ''R4'']) = Inr True"
    by blast
  then have "degree (create_ring_topology [''R1'', ''R2'', ''R3'', ''R4'']) ''R3'' = 2" by simp
  with a b show ?thesis by simp
qed


section \<open>The spine-leaf generator\<close>

subsection \<open>The names of spines, leaves and hosts are all different\<close>

lemma of_char_digit: "d < 10 \<Longrightarrow> (of_char (digit_char d) :: nat) = 48 + d"
  unfolding digit_char_def by (simp only: of_char_of) simp

lemma digit_char_inj: "a < 10 \<Longrightarrow> b < 10 \<Longrightarrow> digit_char a = digit_char b \<Longrightarrow> a = b"
proof -
  assume a: "a < 10" and b: "b < 10" and e: "digit_char a = digit_char b"
  from e have "(of_char (digit_char a) :: nat) = of_char (digit_char b)" by (rule arg_cong)
  then show "a = b" unfolding of_char_digit [OF a] of_char_digit [OF b] by simp
qed

lemma digit_char_not_dash: "d < 10 \<Longrightarrow> digit_char d \<noteq> CHR ''-''"
proof
  assume d: "d < 10" and e: "digit_char d = CHR ''-''"
  from e have "(of_char (digit_char d) :: nat) = of_char CHR ''-''" by (rule arg_cong)
  then show False unfolding of_char_digit [OF d] by simp
qed

lemma str_nat_nonempty: "str_nat n \<noteq> []"
  by (subst str_nat.simps) simp

lemma str_nat_no_dash: "CHR ''-'' \<notin> set (str_nat n)"
proof (induction n rule: str_nat.induct)
  case (1 n)
  show ?case
  proof (cases "n < 10")
    case True
    then have "str_nat n = [digit_char n]" by (subst str_nat.simps) simp
    then show ?thesis using digit_char_not_dash [OF True] by simp
  next
    case False
    then have s: "str_nat n = str_nat (n div 10) @ [digit_char (n mod 10)]"
      by (subst str_nat.simps) simp
    have "n mod 10 < 10" by simp
    from digit_char_not_dash [OF this] "1.IH" [OF False] show ?thesis unfolding s by simp
  qed
qed

lemma str_nat_inj: "str_nat a = str_nat b \<Longrightarrow> a = b"
proof (induction a arbitrary: b rule: str_nat.induct)
  case (1 a)
  show ?case
  proof (cases "a < 10")
    case True
    then have sa: "str_nat a = [digit_char a]" by (subst str_nat.simps) simp
    show ?thesis
    proof (cases "b < 10")
      case b: True
      then have "str_nat b = [digit_char b]" by (subst str_nat.simps) simp
      with sa "1.prems" True b show ?thesis by (simp add: digit_char_inj)
    next
      case False
      then have "str_nat b = str_nat (b div 10) @ [digit_char (b mod 10)]"
        by (subst str_nat.simps) simp
      with sa "1.prems" str_nat_nonempty [of "b div 10"] show ?thesis by simp
    qed
  next
    case False
    then have sa: "str_nat a = str_nat (a div 10) @ [digit_char (a mod 10)]"
      by (subst str_nat.simps) simp
    show ?thesis
    proof (cases "b < 10")
      case True
      then have "str_nat b = [digit_char b]" by (subst str_nat.simps) simp
      with sa "1.prems" str_nat_nonempty [of "a div 10"] show ?thesis by simp
    next
      case b: False
      then have "str_nat b = str_nat (b div 10) @ [digit_char (b mod 10)]"
        by (subst str_nat.simps) simp
      with sa "1.prems" have e: "str_nat (a div 10) = str_nat (b div 10)"
        and d: "digit_char (a mod 10) = digit_char (b mod 10)" by simp_all
      from "1.IH" [OF False e] have "a div 10 = b div 10" .
      moreover from d have "a mod 10 = b mod 10" by (rule digit_char_inj [rotated 2]) simp_all
      ultimately show ?thesis by (metis div_mult_mod_eq)
    qed
  qed
qed

lemma range_int_distinct: "distinct (range_int k)"
  by (simp add: range_int_def)

lemma numbered_inj: "inj_on (\<lambda>i. p @ str_nat (i + 1)) A"
proof (rule inj_onI)
  fix x y assume "p @ str_nat (x + 1) = p @ str_nat (y + 1)"
  then have "str_nat (x + 1) = str_nat (y + 1)" by simp
  from str_nat_inj [OF this] show "x = y" by simp
qed

lemma spine_names_distinct: "distinct (spine_names k)"
  unfolding spine_names_def distinct_map using range_int_distinct numbered_inj by blast

lemma leaf_names_distinct: "distinct (leaf_names k)"
  unfolding leaf_names_def distinct_map using range_int_distinct numbered_inj by blast

lemma spine_names_elem: "s \<in> set (spine_names k) \<Longrightarrow> \<exists>i. s = ''spine'' @ str_nat (i + 1)"
  unfolding spine_names_def by (metis (mono_tags, lifting) imageE list.set_map)

lemma leaf_names_elem: "l \<in> set (leaf_names k) \<Longrightarrow> \<exists>i. l = ''leaf'' @ str_nat (i + 1)"
  unfolding leaf_names_def by (metis (mono_tags, lifting) imageE list.set_map)

lemma spine_leaf_disjoint: "s \<in> set (spine_names a) \<Longrightarrow> s \<notin> set (leaf_names b)"
proof
  assume "s \<in> set (spine_names a)" "s \<in> set (leaf_names b)"
  then obtain i j where "s = ''spine'' @ str_nat (i + 1)" "s = ''leaf'' @ str_nat (j + 1)"
    using spine_names_elem leaf_names_elem by blast
  then show False by simp
qed

lemma leaf_no_dash: "l \<in> set (leaf_names k) \<Longrightarrow> CHR ''-'' \<notin> set l"
proof -
  assume "l \<in> set (leaf_names k)"
  then obtain i where "l = ''leaf'' @ str_nat (i + 1)" using leaf_names_elem by blast
  then show ?thesis using str_nat_no_dash [of "i + 1"] by simp
qed

lemma spine_no_dash: "s \<in> set (spine_names k) \<Longrightarrow> CHR ''-'' \<notin> set s"
proof -
  assume "s \<in> set (spine_names k)"
  then obtain i where "s = ''spine'' @ str_nat (i + 1)" using spine_names_elem by blast
  then show ?thesis using str_nat_no_dash [of "i + 1"] by simp
qed

lemma host_has_dash: "CHR ''-'' \<in> set (host_name l i)"
  by (simp add: host_name_def)

lemma split_unique:
  assumes "c \<notin> set a" "c \<notin> set a'" "a @ c # b = a' @ c # b'"
  shows "a = a' \<and> b = b'"
proof -
  have "takeWhile (\<lambda>x. x \<noteq> c) (a @ c # b) = a" by (rule takeWhile_until_first [OF assms(1)])
  moreover have "takeWhile (\<lambda>x. x \<noteq> c) (a' @ c # b') = a'"
    by (rule takeWhile_until_first [OF assms(2)])
  ultimately have "a = a'" using assms(3) by simp
  with assms(3) show ?thesis by simp
qed

lemma host_name_inj:
  assumes "CHR ''-'' \<notin> set l" "CHR ''-'' \<notin> set l'" "host_name l i = host_name l' i'"
  shows "l = l' \<and> i = i'"
proof -
  from assms(3) have "l @ CHR ''-'' # (''host'' @ str_nat (i + 1))
      = l' @ CHR ''-'' # (''host'' @ str_nat (i' + 1))"
    by (simp add: host_name_def)
  from split_unique [OF assms(1,2) this] have "l = l'" "str_nat (i + 1) = str_nat (i' + 1)"
    by simp_all
  then show ?thesis using str_nat_inj [of "i + 1" "i' + 1"] by simp
qed



subsection \<open>The edges of the spine-leaf graph\<close>

definition host_pairs :: "string list \<Rightarrow> (string \<times> string) list" where
  "host_pairs leaves = map (\<lambda>(l, i). (l, host_name l i)) (List.product leaves [0..<2])"

definition host_step :: "string \<times> string \<Rightarrow> graph \<Rightarrow> graph" where
  "host_step p G =
     add_edge (fst p) (snd p) host_link
       (add_node (snd p)
          [(''role'', AStr ''host''), (''device_type'', AStr ''server''), (''tier'', AStr ''access'')]
          G)"

definition core_edge :: "int \<Rightarrow> int \<Rightarrow> (string \<times> string) \<times> attrs \<Rightarrow> bool" where
  "core_edge S L x \<longleftrightarrow> fst (fst x) \<in> set (spine_names S) \<and> snd (fst x) \<in> set (leaf_names L)
     \<and> map_of (snd x) ''bandwidth'' = Some (AInt 10000) \<and> map_of (snd x) ''mtu'' = Some (AInt 9000)"

definition host_edge :: "int \<Rightarrow> (string \<times> string) \<times> attrs \<Rightarrow> bool" where
  "host_edge L x \<longleftrightarrow> fst (fst x) \<in> set (leaf_names L)
     \<and> snd (fst x) \<in> set (map (host_name (fst (fst x))) [0..<2])
     \<and> map_of (snd x) ''bandwidth'' = Some (AInt 1000) \<and> map_of (snd x) ''mtu'' = Some (AInt 1500)"

lemma fold_fresh_generic:
  assumes he: "\<And>p G x y. has_edge (f p G) x y \<longleftrightarrow> has_edge G x y \<or> {x, y} = {fst p, snd p}"
    and ge: "\<And>p G. \<not> has_edge G (fst p) (snd p) \<Longrightarrow> gedges (f p G) = gedges G @ [(p, d)]"
    and "distinct (map upair ps)" and "\<forall>p\<in>set ps. \<not> has_edge G (fst p) (snd p)"
  shows "gedges (fold f ps G) = gedges G @ map (\<lambda>p. (p, d)) ps"
  using assms(3,4)
proof (induction ps arbitrary: G)
  case Nil
  then show ?case by simp
next
  case (Cons p ps)
  have new: "\<not> has_edge G (fst p) (snd p)" using Cons.prems(2) by simp
  have d: "distinct (map upair ps)" and n: "upair p \<notin> upair ` set ps"
    using Cons.prems(1) by simp_all
  have "\<forall>q\<in>set ps. \<not> has_edge (f p G) (fst q) (snd q)"
  proof
    fix q assume q: "q \<in> set ps"
    then have "\<not> has_edge G (fst q) (snd q)" using Cons.prems(2) by simp
    moreover have "{fst q, snd q} \<noteq> {fst p, snd p}"
    proof
      assume "{fst q, snd q} = {fst p, snd p}"
      then have "upair q = upair p" by (simp add: upair_def)
      with q n show False by (metis imageI)
    qed
    ultimately show "\<not> has_edge (f p G) (fst q) (snd q)" by (simp add: he)
  qed
  from Cons.IH [OF d this] have "gedges (fold f ps (f p G)) = gedges (f p G) @ map (\<lambda>p. (p, d)) ps" .
  then show ?case using ge [OF new] by simp
qed

lemma host_step_has_edge:
  "has_edge (host_step p G) x y \<longleftrightarrow> has_edge G x y \<or> {x, y} = {fst p, snd p}"
  unfolding host_step_def has_edge_add_edge by simp

lemma dict_update_link [simp]: "dict_update [] (link b m t) = link b m t"
  by (simp add: dict_update_def link_def)

lemma host_step_gedges:
  "\<not> has_edge G (fst p) (snd p) \<Longrightarrow> gedges (host_step p G) = gedges G @ [(p, host_link)]"
  unfolding host_step_def by (simp add: gedges_add_edge_new host_link_def)

lemma add_edge_has_edge_pair:
  "has_edge ((\<lambda>(u, v). add_edge u v a) p G) x y \<longleftrightarrow> has_edge G x y \<or> {x, y} = {fst p, snd p}"
  by (cases p) (simp add: has_edge_add_edge)

lemma add_edge_gedges_pair:
  "\<not> has_edge G (fst p) (snd p) \<Longrightarrow>
     gedges ((\<lambda>(u, v). add_edge u v spine_link) p G) = gedges G @ [(p, spine_link)]"
  by (cases p) (simp add: gedges_add_edge_new spine_link_def)

lemma product_concat: "concat (map (\<lambda>x. map (g x) ys) xs) = map (\<lambda>(x, y). g x y) (List.product xs ys)"
  by (induction xs) simp_all

lemma core_loop:
  "fold (\<lambda>spine. fold (\<lambda>leaf. add_edge spine leaf a) leaves) spines G
     = fold (\<lambda>(u, v). add_edge u v a) (List.product spines leaves) G"
proof (induction spines arbitrary: G)
  case Nil
  then show ?case by simp
next
  case (Cons s spines)
  have "fold (\<lambda>leaf. add_edge s leaf a) leaves G
      = fold (\<lambda>(u, v). add_edge u v a) (map (Pair s) leaves) G"
    by (simp add: fold_map comp_def)
  then show ?case using Cons.IH by simp
qed

lemma host_loop:
  "fold (\<lambda>leaf. fold (add_host leaf) (range_int 2)) leaves G = fold host_step (host_pairs leaves) G"
proof (induction leaves arbitrary: G)
  case Nil
  then show ?case by (simp add: host_pairs_def)
next
  case (Cons l leaves)
  have r: "range_int 2 = [0..<2]" by (simp add: range_int_def)
  have a: "add_host l = (\<lambda>i. host_step (l, host_name l i))"
    by (rule ext)+ (simp add: add_host_def host_step_def)
  have "fold (add_host l) (range_int 2) G
      = fold host_step (map (\<lambda>i. (l, host_name l i)) [0..<2]) G"
    unfolding r a by (simp add: fold_map comp_def)
  moreover have "host_pairs (l # leaves) = map (\<lambda>i. (l, host_name l i)) [0..<2] @ host_pairs leaves"
    by (simp add: host_pairs_def)
  ultimately show ?case using Cons.IH by simp
qed

lemma upair_eq_cases:
  assumes "upair (a, b) = upair (c, d)"
  shows "(a = c \<and> b = d) \<or> (a = d \<and> b = c)"
  using assms unfolding upair_def fst_conv snd_conv by (simp only: doubleton_eq_iff)

lemma core_pairs_distinct:
  "distinct (map upair (List.product (spine_names S) (leaf_names L)))"
proof -
  have "distinct (List.product (spine_names S) (leaf_names L))"
    by (rule distinct_product [OF spine_names_distinct leaf_names_distinct])
  moreover have "inj_on upair (set (List.product (spine_names S) (leaf_names L)))"
  proof (rule inj_onI)
    fix p q
    assume p: "p \<in> set (List.product (spine_names S) (leaf_names L))"
      and q: "q \<in> set (List.product (spine_names S) (leaf_names L))" and e: "upair p = upair q"
    obtain a b where pp: "p = (a, b)" by (cases p)
    obtain c d where qq: "q = (c, d)" by (cases q)
    from p q pp qq have m: "a \<in> set (spine_names S)" "b \<in> set (leaf_names L)"
      "c \<in> set (spine_names S)" "d \<in> set (leaf_names L)" by simp_all
    from upair_eq_cases [OF e [unfolded pp qq]] show "p = q"
    proof
      assume "a = c \<and> b = d" then show ?thesis by (simp add: pp qq)
    next
      assume "a = d \<and> b = c"
      with m spine_leaf_disjoint [of a S L] show ?thesis by simp
    qed
  qed
  ultimately show ?thesis by (simp add: distinct_map)
qed

lemma host_pairs_elem:
  "p \<in> set (host_pairs leaves) \<Longrightarrow> fst p \<in> set leaves \<and> (\<exists>i<2. snd p = host_name (fst p) i)"
  unfolding host_pairs_def by auto

lemma host_pairs_distinct:
  assumes "distinct leaves" and "\<forall>l\<in>set leaves. CHR ''-'' \<notin> set l"
  shows "distinct (map upair (host_pairs leaves))"
proof -
  have "distinct (host_pairs leaves)"
    unfolding host_pairs_def distinct_map
  proof
    show "distinct (List.product leaves [0..<2])" by (rule distinct_product [OF assms(1)]) simp
    show "inj_on (\<lambda>(l, i). (l, host_name l i)) (set (List.product leaves [0..<2]))"
    proof (rule inj_onI)
      fix x y assume x: "x \<in> set (List.product leaves [0..<2])"
        and y: "y \<in> set (List.product leaves [0..<2])"
        and e: "(case x of (l, i) \<Rightarrow> (l, host_name l i)) = (case y of (l, i) \<Rightarrow> (l, host_name l i))"
      obtain l i where xx: "x = (l, i)" by (cases x)
      obtain l' i' where yy: "y = (l', i')" by (cases y)
      from e have "(l, host_name l i) = (l', host_name l' i')"
        by (simp only: xx yy prod.case)
      then have ll: "l = l'" and h: "host_name l i = host_name l' i'" by blast+
      from x xx assms(2) have "CHR ''-'' \<notin> set l" by simp
      moreover from y yy assms(2) have "CHR ''-'' \<notin> set l'" by simp
      ultimately have "i = i'" using host_name_inj [OF _ _ h] by blast
      with ll show "x = y" by (simp add: xx yy)
    qed
  qed
  moreover have "inj_on upair (set (host_pairs leaves))"
  proof (rule inj_onI)
    fix p q assume p: "p \<in> set (host_pairs leaves)" and q: "q \<in> set (host_pairs leaves)"
      and e: "upair p = upair q"
    obtain a b where pp: "p = (a, b)" by (cases p)
    obtain c d where qq: "q = (c, d)" by (cases q)
    from host_pairs_elem [OF p] pp assms(2) have a: "CHR ''-'' \<notin> set a" "CHR ''-'' \<in> set b"
      using host_has_dash by auto
    from host_pairs_elem [OF q] qq assms(2) have c: "CHR ''-'' \<notin> set c" "CHR ''-'' \<in> set d"
      using host_has_dash by auto
    from upair_eq_cases [OF e [unfolded pp qq]] show "p = q"
    proof
      assume "a = c \<and> b = d" then show ?thesis by (simp add: pp qq)
    next
      assume "a = d \<and> b = c"
      with a c show ?thesis by simp
    qed
  qed
  ultimately show ?thesis by (simp add: distinct_map)
qed

lemma spine_leaf_gedges:
  "gedges (create_spine_leaf_topology S L)
     = map (\<lambda>p. (p, spine_link)) (List.product (spine_names S) (leaf_names L))
       @ map (\<lambda>p. (p, host_link)) (host_pairs (leaf_names L))"
proof -
  let ?sp = "spine_names S" and ?lf = "leaf_names L"
  let ?G1 = "fold (\<lambda>spine. add_node spine [(''role'', AStr ''spine''),
                 (''device_type'', AStr ''switch''), (''tier'', AStr ''spine'')]) ?sp empty_graph"
  let ?G2 = "fold (\<lambda>leaf. add_node leaf [(''role'', AStr ''leaf''),
                 (''device_type'', AStr ''switch''), (''tier'', AStr ''leaf'')]) ?lf ?G1"
  let ?G3 = "fold (\<lambda>(u, v). add_edge u v spine_link) (List.product ?sp ?lf) ?G2"
  have c: "create_spine_leaf_topology S L = fold host_step (host_pairs ?lf) ?G3"
    by (simp add: create_spine_leaf_topology_def Let_def core_loop host_loop)
  have e2: "gedges ?G2 = []" by simp
  then have f2: "\<forall>p\<in>set (List.product ?sp ?lf). \<not> has_edge ?G2 (fst p) (snd p)"
    by (simp add: has_edge_def)
  have e3: "gedges ?G3 = map (\<lambda>p. (p, spine_link)) (List.product ?sp ?lf)"
    using fold_fresh_generic [of "\<lambda>(u, v). add_edge u v spine_link" spine_link
        "List.product ?sp ?lf" ?G2, OF add_edge_has_edge_pair add_edge_gedges_pair
        core_pairs_distinct f2] e2
    by simp
  have f3: "\<forall>p\<in>set (host_pairs ?lf). \<not> has_edge ?G3 (fst p) (snd p)"
  proof
    fix p assume p: "p \<in> set (host_pairs ?lf)"
    show "\<not> has_edge ?G3 (fst p) (snd p)"
    proof
      assume "has_edge ?G3 (fst p) (snd p)"
      then have "{fst p, snd p} \<in> upair ` set (pairs ?G3)" by (simp only: has_edge_iff)
      then obtain q where q: "q \<in> set (List.product ?sp ?lf)" "upair q = upair p"
        unfolding pairs_def e3 by (auto simp: comp_def upair_def)
      obtain a b where qq: "q = (a, b)" by (cases q)
      with q(1) have ab: "CHR ''-'' \<notin> set a" "CHR ''-'' \<notin> set b"
        using spine_no_dash leaf_no_dash by auto
      from host_pairs_elem [OF p] have "CHR ''-'' \<in> set (snd p)" using host_has_dash by auto
      moreover from upair_eq_cases [of a b "fst p" "snd p"] q(2) qq
      have "snd p = a \<or> snd p = b" by auto
      ultimately show False using ab by auto
    qed
  qed
  have d: "distinct (map upair (host_pairs ?lf))"
    by (rule host_pairs_distinct [OF leaf_names_distinct]) (use leaf_no_dash in blast)
  show ?thesis
    unfolding c
    using fold_fresh_generic [of host_step host_link "host_pairs ?lf" ?G3,
        OF host_step_has_edge host_step_gedges d f3] e3
    by simp
qed

lemma filter_fst_product_out: "x \<notin> set xs \<Longrightarrow> filter (\<lambda>e. fst e = x) (List.product xs ys) = []"
  by (induction xs) (auto simp: filter_empty_conv)

lemma filter_fst_product_in:
  "distinct xs \<Longrightarrow> x \<in> set xs \<Longrightarrow> length (filter (\<lambda>e. fst e = x) (List.product xs ys)) = length ys"
proof (induction xs)
  case Nil
  then show ?case by simp
next
  case (Cons a xs)
  show ?case
  proof (cases "a = x")
    case True
    then have "x \<notin> set xs" using Cons.prems(1) by simp
    then have "filter (\<lambda>e. fst e = x) (List.product xs ys) = []" by (rule filter_fst_product_out)
    moreover have "filter (\<lambda>e. fst e = x) (map (Pair a) ys) = map (Pair a) ys"
      using True by (simp add: filter_map comp_def)
    ultimately show ?thesis by simp
  next
    case False
    then have "filter (\<lambda>e. fst e = x) (map (Pair a) ys) = []"
      by (simp add: filter_map comp_def)
    moreover have "length (filter (\<lambda>e. fst e = x) (List.product xs ys)) = length ys"
      using Cons False by simp
    ultimately show ?thesis by simp
  qed
qed

lemma filter_snd_product_out: "y \<notin> set ys \<Longrightarrow> filter (\<lambda>e. snd e = y) (List.product xs ys) = []"
  by (auto simp: filter_empty_conv)

lemma count_one: "distinct ys \<Longrightarrow> y \<in> set ys \<Longrightarrow> length (filter (\<lambda>z. z = y) ys) = 1"
  by (induction ys) (auto simp: filter_empty_conv)

lemma filter_snd_product_in:
  assumes "distinct ys" "y \<in> set ys"
  shows "length (filter (\<lambda>e. snd e = y) (List.product xs ys)) = length xs"
proof (induction xs)
  case Nil
  then show ?case by simp
next
  case (Cons a xs)
  have "filter (\<lambda>e. snd e = y) (map (Pair a) ys) = map (Pair a) (filter (\<lambda>z. z = y) ys)"
    by (simp add: filter_map comp_def)
  then have "length (filter (\<lambda>e. snd e = y) (map (Pair a) ys)) = 1"
    using count_one [OF assms] by simp
  with Cons show ?case by simp
qed

lemma length_names: "length (spine_names S) = nat S" "length (leaf_names L) = nat L"
  by (simp_all add: spine_names_def leaf_names_def range_int_def)

lemma length_host_pairs: "length (host_pairs ls) = 2 * length ls"
  by (simp add: host_pairs_def length_product)

lemma host_pairs_fst:
  "filter (\<lambda>e. fst e = v) (host_pairs ls)
     = map (\<lambda>(l, i). (l, host_name l i)) (filter (\<lambda>e. fst e = v) (List.product ls [0..<2]))"
  unfolding host_pairs_def filter_map comp_def
  by (rule arg_cong [where f = "map _"], rule filter_cong) auto

lemma spine_leaf_pairs:
  "pairs (create_spine_leaf_topology S L)
     = List.product (spine_names S) (leaf_names L) @ host_pairs (leaf_names L)"
  by (simp add: pairs_def spine_leaf_gedges comp_def)

lemma no_match: "(\<And>e. e \<in> set xs \<Longrightarrow> \<not> P e) \<Longrightarrow> filter P xs = []"
  by (simp add: filter_empty_conv)

lemma spine_degree:
  assumes "s \<in> set (spine_names S)"
  shows "degree (create_spine_leaf_topology S L) s = nat L"
proof -
  let ?sp = "spine_names S" and ?lf = "leaf_names L"
  have nl: "s \<notin> set ?lf" by (rule spine_leaf_disjoint [OF assms])
  have nd: "CHR ''-'' \<notin> set s" by (rule spine_no_dash [OF assms])
  have a: "length (filter (\<lambda>e. fst e = s) (List.product ?sp ?lf)) = nat L"
    using filter_fst_product_in [OF spine_names_distinct assms, of ?lf] by (simp add: length_names)
  have b: "filter (\<lambda>e. snd e = s) (List.product ?sp ?lf) = []"
    by (rule filter_snd_product_out [OF nl])
  have c: "filter (\<lambda>e. fst e = s) (host_pairs ?lf) = []"
    unfolding host_pairs_fst by (simp add: filter_fst_product_out [OF nl])
  have d: "filter (\<lambda>e. snd e = s) (host_pairs ?lf) = []"
  proof (rule no_match)
    fix e assume "e \<in> set (host_pairs ?lf)"
    from host_pairs_elem [OF this] have "CHR ''-'' \<in> set (snd e)" using host_has_dash by auto
    with nd show "snd e \<noteq> s" by auto
  qed
  show ?thesis unfolding degree_pairs spine_leaf_pairs filter_append length_append a b c d by simp
qed

lemma leaf_degree:
  assumes "l \<in> set (leaf_names L)"
  shows "degree (create_spine_leaf_topology S L) l = nat S + 2"
proof -
  let ?sp = "spine_names S" and ?lf = "leaf_names L"
  have ns: "l \<notin> set ?sp" using spine_leaf_disjoint [of l S L] assms by blast
  have nd: "CHR ''-'' \<notin> set l" by (rule leaf_no_dash [OF assms])
  have a: "filter (\<lambda>e. fst e = l) (List.product ?sp ?lf) = []"
    by (rule filter_fst_product_out [OF ns])
  have b: "length (filter (\<lambda>e. snd e = l) (List.product ?sp ?lf)) = nat S"
    using filter_snd_product_in [OF leaf_names_distinct assms, of ?sp] by (simp add: length_names)
  have c: "length (filter (\<lambda>e. fst e = l) (host_pairs ?lf)) = 2"
    unfolding host_pairs_fst length_map
    using filter_fst_product_in [OF leaf_names_distinct assms, of "[0..<2]"] by simp
  have d: "filter (\<lambda>e. snd e = l) (host_pairs ?lf) = []"
  proof (rule no_match)
    fix e assume "e \<in> set (host_pairs ?lf)"
    from host_pairs_elem [OF this] have "CHR ''-'' \<in> set (snd e)" using host_has_dash by auto
    with nd show "snd e \<noteq> l" by auto
  qed
  show ?thesis unfolding degree_pairs spine_leaf_pairs filter_append length_append a b c d by simp
qed

lemma all_match: "(\<And>e. e \<in> set xs \<Longrightarrow> P e) \<Longrightarrow> filter P xs = xs"
  by (simp add: filter_id_conv)

lemma link_lookup:
  "map_of (link b m t) ''bandwidth'' = Some (AInt b)" "map_of (link b m t) ''mtu'' = Some (AInt m)"
  by (simp_all add: link_def)

lemma core_edges_count:
  "length (filter (core_edge S L) (gedges (create_spine_leaf_topology S L))) = nat S * nat L"
proof -
  let ?sp = "spine_names S" and ?lf = "leaf_names L"
  have a: "filter (core_edge S L) (map (\<lambda>p. (p, spine_link)) (List.product ?sp ?lf))
      = map (\<lambda>p. (p, spine_link)) (List.product ?sp ?lf)"
  proof (rule all_match)
    fix e assume "e \<in> set (map (\<lambda>p. (p, spine_link)) (List.product ?sp ?lf))"
    then obtain a b where "(a, b) \<in> set (List.product ?sp ?lf)" "e = ((a, b), spine_link)" by auto
    then have "a \<in> set ?sp" "b \<in> set ?lf" "e = ((a, b), spine_link)" by simp_all
    then show "core_edge S L e"
      by (simp add: core_edge_def spine_link_def link_lookup)
  qed
  have b: "filter (core_edge S L) (map (\<lambda>p. (p, host_link)) (host_pairs ?lf)) = []"
  proof (rule no_match)
    fix e assume "e \<in> set (map (\<lambda>p. (p, host_link)) (host_pairs ?lf))"
    then obtain p where "e = (p, host_link)" by auto
    then show "\<not> core_edge S L e" by (simp add: core_edge_def host_link_def link_lookup)
  qed
  show ?thesis unfolding spine_leaf_gedges filter_append a b
    by (simp add: length_product length_names)
qed

lemma host_edges_count:
  "length (filter (host_edge L) (gedges (create_spine_leaf_topology S L))) = 2 * nat L"
proof -
  let ?sp = "spine_names S" and ?lf = "leaf_names L"
  have a: "filter (host_edge L) (map (\<lambda>p. (p, spine_link)) (List.product ?sp ?lf)) = []"
  proof (rule no_match)
    fix e assume "e \<in> set (map (\<lambda>p. (p, spine_link)) (List.product ?sp ?lf))"
    then obtain p where "e = (p, spine_link)" by auto
    then show "\<not> host_edge L e" by (simp add: host_edge_def spine_link_def link_lookup)
  qed
  have b: "filter (host_edge L) (map (\<lambda>p. (p, host_link)) (host_pairs ?lf))
      = map (\<lambda>p. (p, host_link)) (host_pairs ?lf)"
  proof (rule all_match)
    fix e assume "e \<in> set (map (\<lambda>p. (p, host_link)) (host_pairs ?lf))"
    then obtain p where p: "p \<in> set (host_pairs ?lf)" "e = (p, host_link)" by auto
    from host_pairs_elem [OF p(1)] p(2) show "host_edge L e"
      by (auto simp: host_edge_def host_link_def link_lookup)
  qed
  show ?thesis unfolding spine_leaf_gedges filter_append a b
    by (simp add: length_host_pairs length_names)
qed

text \<open>
  Claim C5. For spine and leaf counts that are not negative, the spine-leaf generator
  makes exactly \<open>S * L\<close> edges from a spine to a leaf, each with bandwidth 10000 and
  mtu 9000, and \<open>2 * L\<close> edges from a leaf to one of its two hosts, each with bandwidth
  1000 and mtu 1500, and no other edge; every spine has degree \<open>L\<close> and every leaf has
  degree \<open>S + 2\<close>.
\<close>

theorem spine_leaf_shape:
  assumes "0 \<le> S" and "0 \<le> L"
  shows "int (length (filter (core_edge S L) (gedges (create_spine_leaf_topology S L)))) = S * L
   \<and> int (length (filter (host_edge L) (gedges (create_spine_leaf_topology S L)))) = 2 * L
   \<and> int (number_of_edges (create_spine_leaf_topology S L)) = S * L + 2 * L
   \<and> (\<forall>s\<in>set (spine_names S). int (degree (create_spine_leaf_topology S L) s) = L)
   \<and> (\<forall>l\<in>set (leaf_names L). int (degree (create_spine_leaf_topology S L) l) = S + 2)"
proof (intro conjI ballI)
  have m: "int (nat S * nat L) = S * L" using assms by simp
  show "int (length (filter (core_edge S L) (gedges (create_spine_leaf_topology S L)))) = S * L"
    unfolding core_edges_count by (rule m)
  show "int (length (filter (host_edge L) (gedges (create_spine_leaf_topology S L)))) = 2 * L"
    unfolding host_edges_count using assms by simp
  have "number_of_edges (create_spine_leaf_topology S L) = nat S * nat L + 2 * nat L"
    by (simp add: number_of_edges_def spine_leaf_gedges length_product length_names
        length_host_pairs)
  then show "int (number_of_edges (create_spine_leaf_topology S L)) = S * L + 2 * L"
    using assms m by simp
  show "int (degree (create_spine_leaf_topology S L) s) = L" if "s \<in> set (spine_names S)" for s
    unfolding spine_degree [OF that] using assms by simp
  show "int (degree (create_spine_leaf_topology S L) l) = S + 2" if "l \<in> set (leaf_names L)" for l
    unfolding leaf_degree [OF that] using assms by simp
qed

theorem spine_leaf_shape_witness:
  "int (length (filter (core_edge 2 3) (gedges (create_spine_leaf_topology 2 3)))) = 6
   \<and> int (length (filter (host_edge 3) (gedges (create_spine_leaf_topology 2 3)))) = 6
   \<and> int (number_of_edges (create_spine_leaf_topology 2 3)) = 12
   \<and> int (degree (create_spine_leaf_topology 2 3) ''spine1'') = 3
   \<and> int (degree (create_spine_leaf_topology 2 3) ''leaf2'') = 4"
proof -
  have h: "(0::int) \<le> 2" "(0::int) \<le> 3" by simp_all
  have s: "''spine1'' \<in> set (spine_names 2)" by code_simp
  have l: "''leaf2'' \<in> set (leaf_names 3)" by code_simp
  from spine_leaf_shape [OF h] s l show ?thesis by auto
qed


section \<open>Failure simulation works on a copy\<close>



lemma add_nodes_from_gedges [simp]: "gedges (add_nodes_from nds G) = gedges G"
  unfolding add_nodes_from_def by (induction nds arbitrary: G) (auto simp: case_prod_beta)

















section \<open>The metrics of a graph without nodes\<close>

text \<open>
  Claim C2 says that the metrics are computed for every graph, the empty one included,
  without an exception. The code does not do that: for a graph without nodes, such as
  the one the star generator returns for a single node id, \<open>nx.is_connected\<close> raises
  \<open>NetworkXPointlessConcept\<close> while the \<open>diameter\<close> entry is evaluated, and no metrics are
  returned.
\<close>

theorem add_topology_metrics_empty_raises:
  "add_topology_metrics empty_graph = Inl NetworkXPointlessConcept
   \<and> add_topology_metrics (create_star_topology [''R1'']) = Inl NetworkXPointlessConcept"
  by (simp add: add_topology_metrics_def is_connected_def nodes_of_def empty_graph_def
      create_star_topology_def)

section \<open>Edges to nodes that are not in the graph\<close>





section \<open>Where the articulation points are reported\<close>






end
